theory Spec2Isabelle
  imports Main
begin

section \<open>JavaScript values and strings\<close>

text \<open>
  The two source files are \<^verbatim>\<open>utils/isadmin.js\<close> (the admin cache and the retrying
  metadata fetch) and \<^verbatim>\<open>antilink.js\<close> (the per-chat deletion queue, the duplicate
  filter and the warning counters).

  A JavaScript string is a list of 16-bit code units. The model takes HOL characters for the
  code units \<^verbatim>\<open>U+0000\<close> to \<^verbatim>\<open>U+00FF\<close>, so it covers the strings made of these, and
  follows JavaScript on them: \<^verbatim>\<open>trim\<close> strips tab, line feed, vertical tab, form feed,
  carriage return, space and the no-break space \<^verbatim>\<open>U+00A0\<close>; \<^verbatim>\<open>toLowerCase\<close> adds 32 to
  \<^verbatim>\<open>A\<close>..\<^verbatim>\<open>Z\<close> and to the capital letters \<^verbatim>\<open>U+00C0\<close>..\<^verbatim>\<open>U+00DE\<close> other than the
  multiplication sign \<^verbatim>\<open>U+00D7\<close>, and leaves every other code unit as it is.

  Values that the code tests with \<^verbatim>\<open>!x\<close>, \<^verbatim>\<open>typeof x\<close>, \<^verbatim>\<open>||\<close> and \<^verbatim>\<open>??\<close> are
  primitives: undefined, null, a boolean, a number (integers only) or a string.
\<close>

datatype jsval = JUndefined | JNull | JBool bool | JNum int | JStr string

fun truthy :: "jsval \<Rightarrow> bool" where
  "truthy JUndefined = False"
| "truthy JNull = False"
| "truthy (JBool b) = b"
| "truthy (JNum n) = (n \<noteq> 0)"
| "truthy (JStr s) = (s \<noteq> [])"

text \<open>\<^verbatim>\<open>a || b\<close> and \<^verbatim>\<open>a ?? b\<close>.\<close>

definition js_or :: "jsval \<Rightarrow> jsval \<Rightarrow> jsval" where
  "js_or a b = (if truthy a then a else b)"

definition nullish :: "jsval \<Rightarrow> jsval \<Rightarrow> jsval" where
  "nullish a b = (if a = JUndefined \<or> a = JNull then b else a)"

definition is_ws :: "char \<Rightarrow> bool" where
  "is_ws c = (c = CHR 0x09 \<or> c = CHR 0x0A \<or> c = CHR 0x0B \<or> c = CHR 0x0C \<or> c = CHR 0x0D
     \<or> c = CHR 0x20 \<or> c = CHR 0xA0)"

definition trim :: "string \<Rightarrow> string" where
  "trim s = rev (dropWhile is_ws (rev (dropWhile is_ws s)))"

definition lower_char :: "char \<Rightarrow> char" where
  "lower_char c =
     (let n = (of_char c :: nat) in
      if (65 \<le> n \<and> n \<le> 90) \<or> (192 \<le> n \<and> n \<le> 214) \<or> (216 \<le> n \<and> n \<le> 222)
      then char_of (n + 32) else c)"

definition toLowerCase :: "string \<Rightarrow> string" where
  "toLowerCase s = map lower_char s"

text \<open>\<^verbatim>\<open>s.indexOf(c)\<close>, with \<open>None\<close> for \<^verbatim>\<open>-1\<close>.\<close>

definition indexOf :: "string \<Rightarrow> char \<Rightarrow> nat option" where
  "indexOf s c = (if c \<in> set s then Some (length (takeWhile (\<lambda>x. x \<noteq> c) s)) else None)"

text \<open>\<^verbatim>\<open>s.split(/[:/]/)[0]\<close>: the text before the first colon or slash.\<close>

definition is_sep :: "char \<Rightarrow> bool" where
  "is_sep c = (c = CHR '':'' \<or> c = CHR ''/'')"

definition split_first :: "string \<Rightarrow> string" where
  "split_first s = takeWhile (\<lambda>c. \<not> is_sep c) s"

text \<open>\<^verbatim>\<open>s.endsWith(t)\<close> and \<^verbatim>\<open>s.includes(t)\<close>.\<close>

fun startsWith :: "string \<Rightarrow> string \<Rightarrow> bool" where
  "startsWith s [] = True"
| "startsWith [] (t # ts) = False"
| "startsWith (c # cs) (t # ts) = (c = t \<and> startsWith cs ts)"

definition endsWith :: "string \<Rightarrow> string \<Rightarrow> bool" where
  "endsWith s t = startsWith (rev s) (rev t)"

fun str_includes :: "string \<Rightarrow> string \<Rightarrow> bool" where
  "str_includes [] t = (t = [])"
| "str_includes (c # cs) t = (startsWith (c # cs) t \<or> str_includes cs t)"

section \<open>isadmin.js: identity normalisation\<close>

text \<open>
  \<^verbatim>\<open>normalizeJid\<close> returns a falsy or non-string argument unchanged. Otherwise it trims
  and lower-cases, and keeps of the part before the first \<^verbatim>\<open>@\<close> only what precedes the
  first colon or slash; without an \<^verbatim>\<open>@\<close> it returns that prefix of the whole string.
\<close>

fun normalizeJid :: "jsval \<Rightarrow> jsval" where
  "normalizeJid (JStr jid) =
     (if jid = [] then JStr jid
      else let s = toLowerCase (trim jid) in
        (case indexOf s (CHR ''@'') of
           None \<Rightarrow> JStr (split_first s)
         | Some atIdx \<Rightarrow>
             JStr (split_first (take atIdx s) @ ''@'' @ drop (atIdx + 1) s)))"
| "normalizeJid v = v"

text \<open>\<^verbatim>\<open>jidEquals\<close>: both truthy and the normalised forms strictly equal.\<close>

definition jidEquals :: "jsval \<Rightarrow> jsval \<Rightarrow> bool" where
  "jidEquals a b = (if \<not> truthy a \<or> \<not> truthy b then False else normalizeJid a = normalizeJid b)"

text \<open>
  The inputs on which normalising twice differs from normalising once: strings without
  an \<^verbatim>\<open>@\<close> in which, after trimming, white space stands directly before the first
  colon or slash.
\<close>
definition ws_before_sep :: "jsval \<Rightarrow> bool" where
  "ws_before_sep v =
     (case v of
        JStr jid \<Rightarrow> CHR ''@'' \<notin> set jid \<and>
          (let l = split_first (trim jid) in l \<noteq> [] \<and> is_ws (last l))
      | _ \<Rightarrow> False)"

text \<open>A string that \<^verbatim>\<open>trim\<close> leaves as it is.\<close>

definition trimmed :: "string \<Rightarrow> bool" where
  "trimmed x = (x = [] \<or> (\<not> is_ws (hd x) \<and> \<not> is_ws (last x)))"

section \<open>isadmin.js: participants and the admin set\<close>

text \<open>\<^verbatim>\<open>String(v)\<close> and \<^verbatim>\<open>v.toString()\<close> on primitives.\<close>

definition digit_char :: "nat \<Rightarrow> char" where
  "digit_char n = char_of (48 + n)"

function show_nat :: "nat \<Rightarrow> string" where
  "show_nat n = (if n < 10 then [digit_char n] else show_nat (n div 10) @ [digit_char (n mod 10)])"
  by pat_completeness auto
termination
  by (relation "measure id") auto

declare show_nat.simps [simp del]

definition show_int :: "int \<Rightarrow> string" where
  "show_int i = (if i < 0 then CHR ''-'' # show_nat (nat (- i)) else show_nat (nat i))"

fun toString :: "jsval \<Rightarrow> string" where
  "toString JUndefined = ''undefined''"
| "toString JNull = ''null''"
| "toString (JBool b) = (if b then ''true'' else ''false'')"
| "toString (JNum n) = show_int n"
| "toString (JStr s) = s"

text \<open>
  An element of a \<^verbatim>\<open>participants\<close> array is a primitive (a plain JID string, or
  null and the like) or an object. An object is its list of properties, whose values are
  primitives; a property that is not listed reads as undefined, and so does every property
  of a primitive (\<^verbatim>\<open>p?.id\<close>).
\<close>

type_synonym jsobj = "(string \<times> jsval) list"

datatype participant = Prim jsval | Obj jsobj

fun get_prop :: "participant \<Rightarrow> string \<Rightarrow> jsval" where
  "get_prop (Prim v) k = JUndefined"
| "get_prop (Obj obj) k = (case map_of obj k of None \<Rightarrow> JUndefined | Some v \<Rightarrow> v)"

fun p_truthy :: "participant \<Rightarrow> bool" where
  "p_truthy (Prim v) = truthy v"
| "p_truthy (Obj obj) = True"

fun p_is_string :: "participant \<Rightarrow> bool" where
  "p_is_string (Prim (JStr s)) = True"
| "p_is_string p = False"

definition normalizeParticipantId :: "participant \<Rightarrow> jsval" where
  "normalizeParticipantId p =
     (if \<not> p_truthy p then JNull
      else case p of
        Prim (JStr s) \<Rightarrow> normalizeJid (JStr s)
      | _ \<Rightarrow>
          (let possible =
             nullish (nullish (nullish (get_prop p ''id'') (get_prop p ''jid'')) (get_prop p ''participant''))
               JNull
           in if truthy possible then normalizeJid possible else JNull))"

definition isAdminFlag :: "participant \<Rightarrow> bool" where
  "isAdminFlag p =
     (let role = toLowerCase
                   (toString (js_or (js_or (get_prop p ''role'') (get_prop p ''participantType'')) (JStr [])))
      in truthy (get_prop p ''isAdmin'') \<or>
         truthy (get_prop p ''isSuperAdmin'') \<or>
         truthy (get_prop p ''admin'') \<or>
         truthy (get_prop p ''superAdmin'') \<or>
         truthy (get_prop p ''isCreator'') \<or>
         role = ''admin'' \<or>
         role = ''creator'' \<or>
         role = ''superadmin'' \<or>
         role = ''owner'')"

text \<open>
  \<^verbatim>\<open>buildAdminSetFromParticipants\<close>. The JavaScript \<^verbatim>\<open>Set\<close> holds primitives, which
  it compares by value.
\<close>

fun buildAdminSetFromParticipants :: "participant list \<Rightarrow> jsval set" where
  "buildAdminSetFromParticipants [] = {}"
| "buildAdminSetFromParticipants (p # ps) =
     (if \<not> p_truthy p then buildAdminSetFromParticipants ps
      else if p_is_string p then buildAdminSetFromParticipants ps
      else let id = normalizeParticipantId p in
        if \<not> truthy id then buildAdminSetFromParticipants ps
        else if isAdminFlag p then insert id (buildAdminSetFromParticipants ps)
        else buildAdminSetFromParticipants ps)"

section \<open>isadmin.js: the admin cache and its events\<close>

text \<open>
  The state that \<^verbatim>\<open>isadmin.js\<close> keeps on the bot object: \<^verbatim>\<open>_adminCache\<close>, a
  \<^verbatim>\<open>Map\<close> from chat id to an entry \<^verbatim>\<open>{ admins }\<close>, and \<^verbatim>\<open>_adminCacheFetches\<close>, a
  \<^verbatim>\<open>Map\<close> from chat id to the promise of a fetch in flight. A missing map reads like an
  empty one. A promise is modelled by the way it settles: \<open>Inr\<close> of the value it resolves
  to, or \<open>Inl\<close> of the error it rejects with.
\<close>

datatype metadata = Falsy | Meta "participant list option"

datatype fetch_error = TypeError

record bot =
  adminCache :: "jsval \<rightharpoonup> jsval set"
  adminCacheFetches :: "jsval \<rightharpoonup> fetch_error + metadata"

text \<open>
  The \<^verbatim>\<open>group-participants.update\<close> event and its handler. Without an entry for the
  chat the handler changes nothing (\<^verbatim>\<open>has\<close> is false where \<^verbatim>\<open>get\<close> gave nothing).
\<close>

record gp_update =
  upd_id :: jsval
  upd_participants :: "participant list"
  upd_action :: string

definition gpHandler :: "bot \<Rightarrow> gp_update \<Rightarrow> bot" where
  "gpHandler b update =
     (let chatId = upd_id update; action = upd_action update in
      if \<not> truthy chatId then b
      else case adminCache b chatId of
        None \<Rightarrow> b
      | Some cacheEntry \<Rightarrow>
          let partIds = filter truthy (map normalizeParticipantId (upd_participants update)) in
          if action = ''promote'' \<or> action = ''demote'' then
            (if action = ''promote''
             then b\<lparr>adminCache := (adminCache b)(chatId \<mapsto> cacheEntry \<union> set partIds)\<rparr>
             else b\<lparr>adminCache := (adminCache b)(chatId \<mapsto> cacheEntry - set partIds)\<rparr>)
          else if action \<in> set [''add'', ''remove'', ''leave'', ''invite'', ''change'']
          then b\<lparr>adminCache := (adminCache b)(chatId := None)\<rparr>
          else b)"

definition invalidateAdminCacheForChat :: "bot \<Rightarrow> jsval \<Rightarrow> bot" where
  "invalidateAdminCacheForChat b chatId =
     (if \<not> truthy chatId then b else b\<lparr>adminCache := (adminCache b)(chatId := None)\<rparr>)"

definition clearAdminCache :: "bot \<Rightarrow> bot" where
  "clearAdminCache b = b\<lparr>adminCache := Map.empty\<rparr>"

section \<open>isadmin.js: the retrying fetch\<close>

text \<open>
  The four metadata methods that one attempt tries in turn. Each is absent (not a
  function, or \<^verbatim>\<open>bot.sock\<close> is missing), or its call throws (or its promise rejects), or
  it resolves to a value; \<open>Falsy\<close> stands for null and every other falsy value, \<open>Meta ps\<close>
  for a truthy result with its \<^verbatim>\<open>participants\<close> array (\<open>None\<close> when that is not an
  array).

  Of a thrown value the code reads \<^verbatim>\<open>e.message\<close>, in the \<^verbatim>\<open>catch\<close> block of the
  loop. That read throws a \<^verbatim>\<open>TypeError\<close> itself when the value is null or undefined
  (\<open>ThrownNullish\<close>); on an \<^verbatim>\<open>Error\<close> object and on any other value it yields a string
  or undefined (\<open>ThrownOther\<close>).
\<close>

datatype thrown = ThrownNullish | ThrownOther

datatype call = NoFunction | Throws thrown | Resolves metadata

record fetchers =
  groupMetadata :: call
  sock_groupMetadata :: call
  getGroupMetadata :: call
  sock_fetchGroupMetadata :: call

text \<open>
  What a run does besides returning: the loop body begins for index \<open>i\<close>, a metadata
  method is called, a warning is logged for attempt number \<open>n\<close>, the task sleeps, the
  final error is logged.
\<close>

datatype event = Attempt nat | Call string | Warn nat | Sleep nat | Error

text \<open>
  The chain \<^verbatim>\<open>a || b || c || d || null\<close> inside the \<^verbatim>\<open>try\<close>: \<open>Inl e\<close> when a call
  threw \<open>e\<close>, otherwise \<open>Inr\<close> of the first truthy result, or of \<open>Falsy\<close>.
\<close>

fun first_truthy :: "(string \<times> call) list \<Rightarrow> (thrown + metadata) \<times> event list" where
  "first_truthy [] = (Inr Falsy, [])"
| "first_truthy ((name, NoFunction) # cs) = first_truthy cs"
| "first_truthy ((name, Throws e) # cs) = (Inl e, [Call name])"
| "first_truthy ((name, Resolves m) # cs) =
     (if m = Falsy then (let (r, tr) = first_truthy cs in (r, Call name # tr))
      else (Inr m, [Call name]))"

definition try_fetch :: "fetchers \<Rightarrow> (thrown + metadata) \<times> event list" where
  "try_fetch f = first_truthy
     [(''bot.groupMetadata'', groupMetadata f),
      (''bot.sock.groupMetadata'', sock_groupMetadata f),
      (''bot.getGroupMetadata'', getGroupMetadata f),
      (''bot.sock.fetchGroupMetadata'', sock_fetchGroupMetadata f)]"

text \<open>
  What follows a failed attempt \<open>i\<close>: the warning, the sleep unless it was the last
  attempt, and the rest of the loop.
\<close>

definition after_failure ::
  "nat \<Rightarrow> event list \<Rightarrow> (fetch_error + metadata) \<times> event list \<Rightarrow>
   (fetch_error + metadata) \<times> event list" where
  "after_failure i calls rest =
     (fst rest,
      Attempt i # calls @ [Warn (i + 1)] @
        (if i < 2 then [Sleep (300 * (i + 1))] else []) @ snd rest)"

text \<open>
  The loop \<^verbatim>\<open>for (let i = 0; i < 3; i++)\<close> of the promise's body. The argument \<open>w\<close>
  gives, for each index, what the four methods do when that attempt runs. The result is
  \<open>Inr\<close> of the value the promise resolves to, or \<open>Inl TypeError\<close> when it rejects: a
  call threw null or undefined, and building the warning text threw in the \<^verbatim>\<open>catch\<close>
  block, before the warning was logged.
\<close>

function retry_loop :: "(nat \<Rightarrow> fetchers) \<Rightarrow> nat \<Rightarrow> (fetch_error + metadata) \<times> event list" where
  "retry_loop w i =
     (if i < 3 then
        (let (r, calls) = try_fetch (w i) in
         case r of
           Inr (Meta arr) \<Rightarrow> (Inr (Meta arr), Attempt i # calls)
         | Inr Falsy \<Rightarrow> after_failure i calls (retry_loop w (i + 1))
         | Inl ThrownOther \<Rightarrow> after_failure i calls (retry_loop w (i + 1))
         | Inl ThrownNullish \<Rightarrow> (Inl TypeError, Attempt i # calls))
      else (Inr Falsy, [Error]))"
  by pat_completeness auto
termination
  by (relation "measure (\<lambda>(w, i). 3 - i)") auto

declare retry_loop.simps [simp del]

text \<open>
  \<^verbatim>\<open>fetchGroupMetadataDeduped\<close>, seen from the caller that awaits it: how the promise
  settles, what happened, and the bot afterwards. A promise already in flight for the chat
  is returned as it is; otherwise the loop runs. In both cases the promise's
  \<^verbatim>\<open>finally\<close> has removed the in-flight entry by the time the caller resumes.
\<close>

definition fetchGroupMetadataDeduped ::
  "bot option \<Rightarrow> jsval \<Rightarrow> (nat \<Rightarrow> fetchers) \<Rightarrow>
   (fetch_error + metadata) \<times> event list \<times> bot option" where
  "fetchGroupMetadataDeduped bt chatId w =
     (case bt of
        None \<Rightarrow> (Inr Falsy, [], bt)
      | Some b \<Rightarrow>
          if \<not> truthy chatId then (Inr Falsy, [], bt)
          else
            (case adminCacheFetches b chatId of
               Some existing \<Rightarrow>
                 (existing, [], Some (b\<lparr>adminCacheFetches := (adminCacheFetches b)(chatId := None)\<rparr>))
             | None \<Rightarrow>
                 (let (m, tr) = retry_loop w 0 in
                  (m, tr, Some (b\<lparr>adminCacheFetches := (adminCacheFetches b)(chatId := None)\<rparr>)))))"

section \<open>isadmin.js: isadmin\<close>

text \<open>The fields of the message context that \<^verbatim>\<open>isadmin\<close> reads.\<close>

record msg_key =
  key_fromMe :: jsval
  key_remoteJid :: jsval
  key_participant :: jsval
  key_from :: jsval

record admin_ctx =
  ctx_key :: "msg_key option"
  ctx_remoteJid :: jsval
  ctx_participant :: jsval
  ctx_sender :: jsval

text \<open>
  \<^verbatim>\<open>ctx.key.remoteJid || ctx.remoteJid || null\<close> and
  \<^verbatim>\<open>ctx.key.participant || ctx.participant || ctx.sender || ctx.key?.from || null\<close>.
\<close>

definition chatId_of :: "msg_key \<Rightarrow> admin_ctx \<Rightarrow> jsval" where
  "chatId_of k ctx = js_or (js_or (key_remoteJid k) (ctx_remoteJid ctx)) JNull"

definition senderRaw_of :: "msg_key \<Rightarrow> admin_ctx \<Rightarrow> jsval" where
  "senderRaw_of k ctx =
     js_or (js_or (js_or (js_or (key_participant k) (ctx_participant ctx)) (ctx_sender ctx))
       (key_from k)) JNull"

text \<open>The loop \<^verbatim>\<open>for (const a of admins) if (a && jidEquals(a, sender)) return true\<close>.\<close>

definition admin_match :: "jsval set \<Rightarrow> jsval \<Rightarrow> bool" where
  "admin_match admins sender = (\<exists>a\<in>admins. truthy a \<and> jidEquals a sender)"

text \<open>
  \<^verbatim>\<open>isadmin\<close>. When the awaited fetch rejects, the outer \<^verbatim>\<open>catch\<close> logs the error
  and returns false.
\<close>

definition isadmin ::
  "bot option \<Rightarrow> admin_ctx \<Rightarrow> (nat \<Rightarrow> fetchers) \<Rightarrow> bool \<times> event list \<times> bot option" where
  "isadmin bt ctx w =
     (case bt of
        None \<Rightarrow> (False, [], bt)
      | Some b \<Rightarrow>
        (case ctx_key ctx of
           None \<Rightarrow> (False, [], bt)
         | Some k \<Rightarrow>
             if truthy (key_fromMe k) then (True, [], bt)
             else
               let chatId = chatId_of k ctx in
               if \<not> truthy chatId \<or> \<not> endsWith (toString chatId) ''@g.us'' then (False, [], bt)
               else
                 let senderRaw = senderRaw_of k ctx in
                 if \<not> truthy senderRaw then (False, [], bt)
                 else
                   let sender = normalizeJid senderRaw in
                   (case adminCache b chatId of
                      Some admins \<Rightarrow> (admin_match admins sender, [], bt)
                    | None \<Rightarrow>
                        (let (settled, tr, bt') = fetchGroupMetadataDeduped bt chatId w in
                         case settled of
                           Inl err \<Rightarrow> (False, tr, bt')
                         | Inr Falsy \<Rightarrow> (False, tr, bt')
                         | Inr (Meta arr) \<Rightarrow>
                             (let participants = (case arr of Some ps \<Rightarrow> ps | None \<Rightarrow> []);
                                  admins = buildAdminSetFromParticipants participants
                              in (admin_match admins sender, tr,
                                  map_option (\<lambda>b'. b'\<lparr>adminCache := (adminCache b')(chatId \<mapsto> admins)\<rparr>)
                                    bt'))))))"

text \<open>
  Notions used to state the properties of the fetch. A call fails when it throws or
  resolves to a falsy value (an absent method is not called at all). An attempt succeeds
  with the first truthy value of its chain.
\<close>

fun call_fails :: "call \<Rightarrow> bool" where
  "call_fails (Resolves (Meta arr)) = False"
| "call_fails c = True"

definition all_calls_fail :: "fetchers \<Rightarrow> bool" where
  "all_calls_fail f =
     (call_fails (groupMetadata f) \<and> call_fails (sock_groupMetadata f) \<and>
      call_fails (getGroupMetadata f) \<and> call_fails (sock_fetchGroupMetadata f))"

definition attempt_value :: "fetchers \<Rightarrow> metadata option" where
  "attempt_value f =
     (case fst (try_fetch f) of Inr (Meta arr) \<Rightarrow> Some (Meta arr) | _ \<Rightarrow> None)"

fun is_call :: "event \<Rightarrow> bool" where
  "is_call (Call name) = True"
| "is_call e = False"

section \<open>antilink.js: configuration and messages\<close>

text \<open>
  The configuration object. Numbers are integers; \<^verbatim>\<open>x || d\<close> on a number takes \<open>d\<close>
  when \<open>x\<close> is zero.
\<close>

record config =
  MAX_WARNS :: int
  REMOVE_ON_MAX :: bool
  SEND_WARNING :: bool
  LOG_DELETED_LINKS :: bool
  BATCH_SIZE :: int
  BATCH_DELAY_MS :: int
  GLOBAL_CONCURRENCY :: int
  DELETE_RETRY_COUNT :: int

definition default_config :: config where
  "default_config =
     \<lparr>MAX_WARNS = 3, REMOVE_ON_MAX = True, SEND_WARNING = True, LOG_DELETED_LINKS = True,
      BATCH_SIZE = 5, BATCH_DELAY_MS = 800, GLOBAL_CONCURRENCY = 2, DELETE_RETRY_COUNT = 2\<rparr>"

definition num_or :: "int \<Rightarrow> int \<Rightarrow> int" where
  "num_or x d = (if x = 0 then d else x)"

text \<open>
  The fields of a message context that \<^verbatim>\<open>antilink.js\<close> reads. A string field is \<open>None\<close>
  when it (or \<^verbatim>\<open>ctx.key\<close>) is missing; the empty string is falsy as well. \<open>m_text\<close> is
  the result of \<^verbatim>\<open>extractTextFromMessage\<close>.
\<close>

record message =
  m_remoteJid :: "string option"
  m_id :: "string option"
  m_participant :: "string option"
  m_fromMe :: bool
  m_hasMessage :: bool
  m_text :: string

fun nonempty :: "string option \<Rightarrow> bool" where
  "nonempty None = False"
| "nonempty (Some s) = (s \<noteq> [])"

text \<open>\<^verbatim>\<open>a || b\<close> on optional strings, and a string in a template literal.\<close>

definition str_or :: "string option \<Rightarrow> string option \<Rightarrow> string option" where
  "str_or a b = (if nonempty a then a else b)"

fun template :: "string option \<Rightarrow> string" where
  "template None = ''undefined''"
| "template (Some s) = s"

text \<open>\<^verbatim>\<open>ctx.key?.participant || ctx.key?.remoteJid || ''\<close>.\<close>

definition sender_of :: "message \<Rightarrow> string" where
  "sender_of m = (case str_or (str_or (m_participant m) (m_remoteJid m)) (Some []) of
                    Some s \<Rightarrow> s | None \<Rightarrow> [])"

section \<open>antilink.js: the warning counters\<close>

definition userKey :: "string \<Rightarrow> string \<Rightarrow> string" where
  "userKey chatId sender = chatId @ ''::'' @ sender"

text \<open>
  \<^verbatim>\<open>incrementWarningAndMaybeRemove\<close>. \<^verbatim>\<open>perUserWarnings\<close> maps a key to an object
  \<^verbatim>\<open>{ count }\<close>, modelled by the count. The argument \<open>remove_ok\<close> tells whether the call
  \<^verbatim>\<open>groupParticipantsUpdate(chat, [sender], 'remove')\<close> resolves; when it throws, the
  \<^verbatim>\<open>catch\<close> returns \<^verbatim>\<open>{ count: 0, removed: false }\<close> and the counter stays incremented.
\<close>

definition incrementWarningAndMaybeRemove ::
  "config \<Rightarrow> message \<Rightarrow> bool \<Rightarrow> (string \<rightharpoonup> int) \<Rightarrow> (int \<times> bool) \<times> (string \<rightharpoonup> int)" where
  "incrementWarningAndMaybeRemove cfg ctx remove_ok perUserWarnings =
     (let chat = m_remoteJid ctx; sender = sender_of ctx in
      if \<not> nonempty chat \<or> sender = [] then ((0, False), perUserWarnings)
      else
        let k = userKey (the chat) sender;
            count = (case perUserWarnings k of None \<Rightarrow> 0 | Some c \<Rightarrow> c) + 1;
            warnings1 = perUserWarnings(k \<mapsto> count)
        in if REMOVE_ON_MAX cfg \<and> count \<ge> MAX_WARNS cfg then
             (if remove_ok then ((count, True), warnings1(k := None))
              else ((0, False), warnings1))
           else ((count, False), warnings1))"

section \<open>antilink.js: the whitelist check of onMessage\<close>

text \<open>
  The loop over \<^verbatim>\<open>setting.whitelist\<close>: an item with an \<^verbatim>\<open>@\<close> matches when it is
  the sender JID, character for character; an item without one matches when the text
  contains it.
\<close>

fun isWhitelisted :: "string list \<Rightarrow> string \<Rightarrow> string \<Rightarrow> bool" where
  "isWhitelisted [] senderJid text = False"
| "isWhitelisted (item # items) senderJid text =
     (if CHR ''@'' \<in> set item \<and> item = senderJid then True
      else if CHR ''@'' \<notin> set item \<and> str_includes text item then True
      else isWhitelisted items senderJid text)"

text \<open>
  The reading of the whitelist in the specification: a user entry matches a sender with
  the same normalised identity.
\<close>

definition spec_whitelisted :: "string list \<Rightarrow> string \<Rightarrow> string \<Rightarrow> bool" where
  "spec_whitelisted whitelist senderJid text =
     (\<exists>item\<in>set whitelist.
        (CHR ''@'' \<in> set item \<and> normalizeJid (JStr item) = normalizeJid (JStr senderJid)) \<or>
        (CHR ''@'' \<notin> set item \<and> str_includes text item))"

section \<open>antilink.js: the deletion queue\<close>

text \<open>
  The module state between \<^verbatim>\<open>initialize\<close> and \<^verbatim>\<open>cleanup\<close>: the \<^verbatim>\<open>Map\<close>s
  \<^verbatim>\<open>perChatQueue\<close>, \<^verbatim>\<open>perChatProcessing\<close>, \<^verbatim>\<open>processedMessageIds\<close> and
  \<^verbatim>\<open>perUserWarnings\<close>, the counter \<^verbatim>\<open>activeChats\<close> and the flag \<^verbatim>\<open>shuttingDown\<close>.
  JavaScript runs one handler at a time; a handler runs until it returns or reaches an
  \<^verbatim>\<open>await\<close> on a call to the outside or on a timer. What is suspended is part of the
  state too:

  \<^item> \<open>clock\<close>, the time in milliseconds;
  \<^item> \<open>processedMessageIds\<close> maps a message key to the time at which the timer stored
    under it removes the key again;
  \<^item> \<open>startTimers\<close>, the pending \<^verbatim>\<open>setTimeout\<close> and \<^verbatim>\<open>setImmediate\<close> callbacks
    \<^verbatim>\<open>tryStartProcessingForChat(chatId)\<close> with the time from which they may run;
  \<^item> \<open>tasks\<close>, for each chat the point at which its running \<^verbatim>\<open>processChatQueue\<close>
    is suspended, with the rest of the batch it is working on;
  \<^item> \<open>pendingMessages\<close>, the messages for which \<^verbatim>\<open>onMessage\<close> was called and is
    suspended at one of its \<^verbatim>\<open>await\<close>s, before its last lines;
  \<^item> \<open>history\<close>, the arrivals with their times and the calls made so far, in order.
\<close>

datatype task =
    Deleting message nat "message list"
  | Backoff message nat "message list" nat
  | Forwarding message "message list"
  | Warning message "message list"
  | Pausing nat
  | Returned

datatype action =
    Arrived message nat
  | Enqueued message
  | DeleteAttempt message nat
  | Forwarded message
  | Counted message int bool
  | WarningSent message int

record qstate =
  clock :: nat
  shuttingDown :: bool
  perChatQueue :: "string \<rightharpoonup> message list"
  perChatProcessing :: "string \<rightharpoonup> bool"
  activeChats :: int
  processedMessageIds :: "string option \<rightharpoonup> nat"
  perUserWarnings :: "string \<rightharpoonup> int"
  startTimers :: "(nat \<times> string) list"
  tasks :: "string \<rightharpoonup> task"
  pendingMessages :: "message list"
  history :: "action list"

definition initial_state :: qstate where
  "initial_state =
     \<lparr>clock = 0, shuttingDown = False, perChatQueue = Map.empty, perChatProcessing = Map.empty,
      activeChats = 0, processedMessageIds = Map.empty, perUserWarnings = Map.empty,
      startTimers = [], tasks = Map.empty, pendingMessages = [], history = []\<rparr>"

text \<open>\<^verbatim>\<open>perChatQueue.get(chatId)\<close> where only its length or content matters.\<close>

definition queue_of :: "qstate \<Rightarrow> string \<Rightarrow> message list" where
  "queue_of s chatId = (case perChatQueue s chatId of None \<Rightarrow> [] | Some q \<Rightarrow> q)"

text \<open>
  The \<^verbatim>\<open>for (const ctx of batch)\<close> loop of \<^verbatim>\<open>processChatQueue\<close> from its next element up
  to the next suspension. \<^verbatim>\<open>deleteWithRetry\<close> returns false at once for a context without
  \<^verbatim>\<open>remoteJid\<close>; otherwise it issues the first \<^verbatim>\<open>sendMessage\<close> and awaits it. After the
  batch, a non-empty queue leads to the sleep between batches, an empty one ends the
  \<^verbatim>\<open>while\<close> loop.
\<close>

fun run_batch :: "config \<Rightarrow> string \<Rightarrow> message list \<Rightarrow> qstate \<Rightarrow> qstate" where
  "run_batch cfg chatId [] s =
     (if queue_of s chatId \<noteq> []
      then s\<lparr>tasks := (tasks s)(chatId \<mapsto> Pausing (clock s + nat (num_or (BATCH_DELAY_MS cfg) 500)))\<rparr>
      else s\<lparr>tasks := (tasks s)(chatId \<mapsto> Returned)\<rparr>)"
| "run_batch cfg chatId (ctx # rest) s =
     (if \<not> nonempty (m_remoteJid ctx) then run_batch cfg chatId rest s
      else s\<lparr>history := history s @ [DeleteAttempt ctx 1],
             tasks := (tasks s)(chatId \<mapsto> Deleting ctx 1 rest)\<rparr>)"

text \<open>
  \<^verbatim>\<open>processChatQueue\<close> at the head of its \<^verbatim>\<open>while\<close> loop. \<^verbatim>\<open>splice(0, n)\<close> takes
  nothing for a negative \<open>n\<close>.
\<close>

definition processChatQueue :: "config \<Rightarrow> string \<Rightarrow> qstate \<Rightarrow> qstate" where
  "processChatQueue cfg chatId s =
     (if queue_of s chatId \<noteq> [] \<and> \<not> shuttingDown s then
        (let n = nat (num_or (BATCH_SIZE cfg) 1); q = queue_of s chatId in
         run_batch cfg chatId (take n q) (s\<lparr>perChatQueue := (perChatQueue s)(chatId \<mapsto> drop n q)\<rparr>))
      else s\<lparr>tasks := (tasks s)(chatId \<mapsto> Returned)\<rparr>)"

definition tryStartProcessingForChat :: "config \<Rightarrow> string \<Rightarrow> qstate \<Rightarrow> qstate" where
  "tryStartProcessingForChat cfg chatId s =
     (if perChatProcessing s chatId = Some True \<or> shuttingDown s then s
      else if activeChats s \<ge> num_or (GLOBAL_CONCURRENCY cfg) 1
      then s\<lparr>startTimers := startTimers s @ [(clock s + 150, chatId)]\<rparr>
      else processChatQueue cfg chatId
             (s\<lparr>activeChats := activeChats s + 1,
                perChatProcessing := (perChatProcessing s)(chatId \<mapsto> True)\<rparr>))"

definition enqueueDeletion :: "config \<Rightarrow> message \<Rightarrow> qstate \<Rightarrow> qstate" where
  "enqueueDeletion cfg ctx s =
     (if \<not> nonempty (m_remoteJid ctx) then s
      else
        let chatId = the (m_remoteJid ctx);
            s1 = s\<lparr>perChatQueue := (perChatQueue s)(chatId \<mapsto> queue_of s chatId @ [ctx]),
                   history := history s @ [Enqueued ctx]\<rparr>
        in if perChatProcessing s1 chatId \<noteq> Some True
           then tryStartProcessingForChat cfg chatId s1 else s1)"

text \<open>
  The \<^verbatim>\<open>finally\<close> block that runs when \<^verbatim>\<open>processChatQueue\<close> has returned.
\<close>

definition finish_processing :: "string \<Rightarrow> qstate \<Rightarrow> qstate" where
  "finish_processing chatId s =
     s\<lparr>perChatProcessing := (perChatProcessing s)(chatId \<mapsto> False),
       activeChats := activeChats s - 1,
       tasks := (tasks s)(chatId := None),
       startTimers := (if queue_of s chatId \<noteq> [] then startTimers s @ [(clock s, chatId)]
                       else startTimers s)\<rparr>"

section \<open>antilink.js: onMessage\<close>

definition getMessageKey :: "message \<Rightarrow> string option" where
  "getMessageKey ctx =
     (if \<not> nonempty (m_id ctx) then None
      else Some (template (m_remoteJid ctx) @ '':'' @ the (m_id ctx)))"

text \<open>
  The last lines of \<^verbatim>\<open>onMessage\<close>, reached when \<^verbatim>\<open>messageContainsLink\<close> gave true:
  drop the message when its key is registered; otherwise register the key with a timer of
  5000 ms and enqueue the deletion.
\<close>

definition acceptViolation :: "config \<Rightarrow> message \<Rightarrow> qstate \<Rightarrow> qstate" where
  "acceptViolation cfg ctx s =
     (let msgKey = getMessageKey ctx in
      if processedMessageIds s msgKey \<noteq> None then s
      else enqueueDeletion cfg ctx
             (s\<lparr>processedMessageIds := (processedMessageIds s)(msgKey \<mapsto> clock s + 5000)\<rparr>))"

text \<open>
  What the collaborators answer while \<^verbatim>\<open>onMessage\<close> handles one message: whether the
  text is one of the module's commands, the stored group setting, the result of
  \<^verbatim>\<open>isadmin\<close> and the result of \<^verbatim>\<open>messageContainsLink\<close>. The command branch answers the
  command and returns; it does not touch the state modelled here. Apart from the flag
  \<^verbatim>\<open>shuttingDown\<close>, which \<^verbatim>\<open>onMessage\<close> reads on entry and which no input changes,
  the state is read and written only in the last lines, after the last \<^verbatim>\<open>await\<close>.
\<close>

record answers =
  is_command :: bool
  setting_enabled :: bool
  setting_whitelist :: "string list"
  is_admin :: bool
  contains_link :: bool

definition onMessage :: "config \<Rightarrow> message \<Rightarrow> answers \<Rightarrow> qstate \<Rightarrow> qstate" where
  "onMessage cfg ctx a s =
     (if \<not> nonempty (m_remoteJid ctx) \<or> \<not> m_hasMessage ctx \<or> shuttingDown s then s
      else
        let remote = the (m_remoteJid ctx);
            isGroup = endsWith remote ''@g.us'';
            senderJid = the (str_or (m_participant ctx) (m_remoteJid ctx))
        in if is_command a then s
           else if isGroup then
             (if \<not> setting_enabled a then s
              else if m_fromMe ctx \<or> is_admin a then s
              else if isWhitelisted (setting_whitelist a) senderJid (m_text ctx) then s
              else if contains_link a then acceptViolation cfg ctx s
              else s)
           else s)"

section \<open>antilink.js: the handlers as a transition system\<close>

text \<open>
  One input is one handler run: time passes; a message arrives, that is, \<^verbatim>\<open>onMessage\<close>
  is called with it and suspends at its first \<^verbatim>\<open>await\<close> (\<open>Arrives\<close>); the last of the
  calls that \<^verbatim>\<open>onMessage\<close> awaits for a message has answered and \<^verbatim>\<open>onMessage\<close> runs
  to its end (\<open>Incoming\<close>, with the answers); a start timer or a key timer fires; the call
  or the sleep that a task awaits ends. An input that cannot occur in a state gives
  \<open>None\<close>: \<^verbatim>\<open>onMessage\<close> ends only for a message that has arrived, a timer does not fire
  before its time, and only a suspended task resumes. Any time may pass between the
  arrival of a message and the end of its \<^verbatim>\<open>onMessage\<close>: the group setting, the admin
  check with its metadata fetch and the link check are awaited in between.
\<close>

datatype input =
    Tick nat
  | Arrives message
  | Incoming message answers
  | StartTimerFires nat
  | KeyTimerFires "string option"
  | DeleteSettles string bool
  | SleepEnds string
  | ForwardSettles string bool
  | WarningSettles string
  | ProcessingEnds string

definition delete_attempts :: "config \<Rightarrow> int" where
  "delete_attempts cfg = max 1 (num_or (DELETE_RETRY_COUNT cfg) 1)"

fun fire :: "config \<Rightarrow> input \<Rightarrow> qstate \<Rightarrow> qstate option" where
  "fire cfg (Tick n) s = Some (s\<lparr>clock := clock s + n\<rparr>)"
| "fire cfg (Arrives ctx) s =
     Some (s\<lparr>pendingMessages := pendingMessages s @ [ctx],
             history := history s @ [Arrived ctx (clock s)]\<rparr>)"
| "fire cfg (Incoming ctx a) s =
     (if ctx \<in> set (pendingMessages s)
      then Some (onMessage cfg ctx a (s\<lparr>pendingMessages := remove1 ctx (pendingMessages s)\<rparr>))
      else None)"
| "fire cfg (StartTimerFires i) s =
     (if i < length (startTimers s) \<and> fst (startTimers s ! i) \<le> clock s
      then Some (tryStartProcessingForChat cfg (snd (startTimers s ! i))
                   (s\<lparr>startTimers := take i (startTimers s) @ drop (Suc i) (startTimers s)\<rparr>))
      else None)"
| "fire cfg (KeyTimerFires k) s =
     (case processedMessageIds s k of
        None \<Rightarrow> None
      | Some due \<Rightarrow>
          if due \<le> clock s
          then Some (s\<lparr>processedMessageIds := (processedMessageIds s)(k := None)\<rparr>)
          else None)"
| "fire cfg (DeleteSettles chatId ok) s =
     (case tasks s chatId of
        Some (Deleting ctx i rest) \<Rightarrow>
          if ok then Some (s\<lparr>tasks := (tasks s)(chatId \<mapsto> Forwarding ctx rest)\<rparr>)
          else if int i < delete_attempts cfg
          then Some (s\<lparr>tasks := (tasks s)(chatId \<mapsto> Backoff ctx i rest (clock s + 400 * i))\<rparr>)
          else Some (run_batch cfg chatId rest s)
      | _ \<Rightarrow> None)"
| "fire cfg (SleepEnds chatId) s =
     (case tasks s chatId of
        Some (Backoff ctx i rest wake) \<Rightarrow>
          if wake \<le> clock s
          then Some (s\<lparr>history := history s @ [DeleteAttempt ctx (i + 1)],
                       tasks := (tasks s)(chatId \<mapsto> Deleting ctx (i + 1) rest)\<rparr>)
          else None
      | Some (Pausing wake) \<Rightarrow>
          if wake \<le> clock s then Some (processChatQueue cfg chatId s) else None
      | _ \<Rightarrow> None)"
| "fire cfg (ForwardSettles chatId remove_ok) s =
     (case tasks s chatId of
        Some (Forwarding ctx rest) \<Rightarrow>
          (let s1 = (if LOG_DELETED_LINKS cfg then s\<lparr>history := history s @ [Forwarded ctx]\<rparr> else s);
               ((count, removed), warnings) =
                  incrementWarningAndMaybeRemove cfg ctx remove_ok (perUserWarnings s1);
               s2 = s1\<lparr>perUserWarnings := warnings,
                       history := history s1 @ [Counted ctx count removed]\<rparr>
           in if removed then Some (run_batch cfg chatId rest s2)
              else Some ((if SEND_WARNING cfg
                          then s2\<lparr>history := history s2 @ [WarningSent ctx count]\<rparr> else s2)
                         \<lparr>tasks := (tasks s2)(chatId \<mapsto> Warning ctx rest)\<rparr>))
      | _ \<Rightarrow> None)"
| "fire cfg (WarningSettles chatId) s =
     (case tasks s chatId of
        Some (Warning ctx rest) \<Rightarrow> Some (run_batch cfg chatId rest s)
      | _ \<Rightarrow> None)"
| "fire cfg (ProcessingEnds chatId) s =
     (case tasks s chatId of
        Some Returned \<Rightarrow> Some (finish_processing chatId s)
      | _ \<Rightarrow> None)"

fun run :: "config \<Rightarrow> input list \<Rightarrow> qstate \<Rightarrow> qstate option" where
  "run cfg [] s = Some s"
| "run cfg (e # es) s = (case fire cfg e s of None \<Rightarrow> None | Some s' \<Rightarrow> run cfg es s')"

section \<open>antilink.js: what the history says about one chat\<close>

text \<open>
  The messages enqueued for a chat, the \<^verbatim>\<open>sendMessage\<close> deletions attempted for it, and
  the messages whose deletion was begun, each in the order of the history. The rest of the
  batch that the chat's task holds is \<open>in_batch\<close>.
\<close>

fun enqueued_for :: "string \<Rightarrow> action list \<Rightarrow> message list" where
  "enqueued_for c [] = []"
| "enqueued_for c (Enqueued m # h) =
     (if m_remoteJid m = Some c then m # enqueued_for c h else enqueued_for c h)"
| "enqueued_for c (a # h) = enqueued_for c h"

fun attempts_for :: "string \<Rightarrow> action list \<Rightarrow> (message \<times> nat) list" where
  "attempts_for c [] = []"
| "attempts_for c (DeleteAttempt m i # h) =
     (if m_remoteJid m = Some c then (m, i) # attempts_for c h else attempts_for c h)"
| "attempts_for c (a # h) = attempts_for c h"

definition begun_for :: "string \<Rightarrow> action list \<Rightarrow> message list" where
  "begun_for c h = map fst (filter (\<lambda>(m, i). i = 1) (attempts_for c h))"

fun in_batch :: "task option \<Rightarrow> message list" where
  "in_batch (Some (Deleting m i rest)) = rest"
| "in_batch (Some (Backoff m i rest wake)) = rest"
| "in_batch (Some (Forwarding m rest)) = rest"
| "in_batch (Some (Warning m rest)) = rest"
| "in_batch t = []"

text \<open>
  A list of attempts in which every message is attempted \<open>1, 2, \<dots>, k\<close> times in a row:
  \<open>repeats ms ks\<close> for the messages \<open>ms\<close> and their numbers of attempts \<open>ks\<close>.
\<close>

fun repeats :: "message list \<Rightarrow> nat list \<Rightarrow> (message \<times> nat) list" where
  "repeats (m # ms) (k # ks) = map (\<lambda>i. (m, i)) [1..<Suc k] @ repeats ms ks"
| "repeats ms ks = []"

section \<open>antilink.js: invariants of the deletion queue\<close>

text \<open>
  The attempt that a task is in the middle of: the message and the number of the last
  \<^verbatim>\<open>sendMessage\<close> issued for it.
\<close>

fun current_attempt :: "task option \<Rightarrow> (message \<times> nat) option" where
  "current_attempt (Some (Deleting m i rest)) = Some (m, i)"
| "current_attempt (Some (Backoff m i rest wake)) = Some (m, i)"
| "current_attempt t = None"

text \<open>
  The attempts made for chat \<open>c\<close> are those of the messages begun, each attempted
  \<open>1, \<dots>, k\<close> times in a row with \<open>k \<ge> 1\<close>; the attempt in progress is the last of them.
\<close>

definition retry_ok :: "string \<Rightarrow> action list \<Rightarrow> (message \<times> nat) option \<Rightarrow> bool" where
  "retry_ok c h cur =
     (\<exists>ks. length ks = length (begun_for c h) \<and> (\<forall>k\<in>set ks. 1 \<le> k) \<and>
           attempts_for c h = repeats (begun_for c h) ks \<and>
           (\<forall>m i. cur = Some (m, i) \<longrightarrow>
                  begun_for c h \<noteq> [] \<and> last (begun_for c h) = m \<and> last ks = i))"

text \<open>
  The invariant for one chat \<open>c\<close>, given the history \<open>h\<close>, the rest of the batch, the
  attempt in progress, whether a task exists, the queue and the processing flag: the
  messages begun, then the rest of the batch, then the queue are the messages enqueued, in
  order; everything waiting belongs to the chat; a task exists only while the flag is set.
\<close>

definition chat_ok ::
  "string \<Rightarrow> action list \<Rightarrow> message list \<Rightarrow> (message \<times> nat) option \<Rightarrow> bool \<Rightarrow>
   message list \<Rightarrow> bool option \<Rightarrow> bool" where
  "chat_ok c h batch cur running q p =
     (begun_for c h @ batch @ q = enqueued_for c h \<and>
      (\<forall>m\<in>set (batch @ q). m_remoteJid m = Some c \<and> c \<noteq> []) \<and>
      (running \<longrightarrow> p = Some True) \<and>
      retry_ok c h cur)"

definition chat_inv :: "string \<Rightarrow> qstate \<Rightarrow> bool" where
  "chat_inv c s =
     chat_ok c (history s) (in_batch (tasks s c)) (current_attempt (tasks s c))
       (tasks s c \<noteq> None) (queue_of s c) (perChatProcessing s c)"

definition fifo_inv :: "qstate \<Rightarrow> bool" where
  "fifo_inv s = (\<forall>c. chat_inv c s)"

text \<open>
  All messages enqueued, in the order of the history, and the messages of the same
  (group, message id) pair as a given one.
\<close>

fun all_enqueued :: "action list \<Rightarrow> message list" where
  "all_enqueued [] = []"
| "all_enqueued (Enqueued m # h) = m # all_enqueued h"
| "all_enqueued (a # h) = all_enqueued h"


text \<open>What the queue handlers leave alone: the key timers, the clock, the messages enqueued.\<close>

definition same_keys :: "qstate \<Rightarrow> qstate \<Rightarrow> bool" where
  "same_keys s s' =
     (processedMessageIds s' = processedMessageIds s \<and> clock s' = clock s \<and>
      all_enqueued (history s') = all_enqueued (history s))"

text \<open>
  A state in which no deletion was attempted and no task is in the middle of a batch.
\<close>

fun idle_task :: "task option \<Rightarrow> bool" where
  "idle_task None = True"
| "idle_task (Some (Pausing wake)) = True"
| "idle_task (Some Returned) = True"
| "idle_task t = False"

definition nothing_begun :: "qstate \<Rightarrow> bool" where
  "nothing_begun s = ((\<forall>c. idle_task (tasks s c)) \<and> (\<forall>c. attempts_for c (history s) = []))"

section \<open>antilink.js: an example run\<close>









section \<open>isadmin.js: example values\<close>

text \<open>
  A group, a message of user \<open>u\<close> in it, the same message marked as the bot's own, a world
  in which \<^verbatim>\<open>bot.groupMetadata\<close> returns two members without admin flags, and the
  role-change events for \<open>u\<close>.
\<close>

definition example_admin_ctx :: admin_ctx where
  "example_admin_ctx =
     \<lparr>ctx_key = Some \<lparr>key_fromMe = JBool False, key_remoteJid = JStr ''g@g.us'',
                       key_participant = JStr ''u@s.whatsapp.net'', key_from = JUndefined\<rparr>,
      ctx_remoteJid = JUndefined, ctx_participant = JUndefined, ctx_sender = JUndefined\<rparr>"

definition example_own_ctx :: admin_ctx where
  "example_own_ctx =
     \<lparr>ctx_key = Some \<lparr>key_fromMe = JBool True, key_remoteJid = JStr ''g@g.us'',
                       key_participant = JStr ''u@s.whatsapp.net'', key_from = JUndefined\<rparr>,
      ctx_remoteJid = JUndefined, ctx_participant = JUndefined, ctx_sender = JUndefined\<rparr>"

definition example_members :: "nat \<Rightarrow> fetchers" where
  "example_members i =
     \<lparr>groupMetadata = Resolves (Meta (Some [Obj [(''id'', JStr ''u@s.whatsapp.net'')],
                                            Prim (JStr ''v@s.whatsapp.net'')])),
      sock_groupMetadata = NoFunction, getGroupMetadata = NoFunction,
      sock_fetchGroupMetadata = NoFunction\<rparr>"

text \<open>
  Three more worlds: \<^verbatim>\<open>bot.groupMetadata\<close> rejects with \<^verbatim>\<open>undefined\<close> at every attempt;
  it throws an \<^verbatim>\<open>Error\<close> at the first attempt and returns a snapshot without members
  afterwards; it returns a snapshot without members at once.
\<close>

definition example_rejects :: "nat \<Rightarrow> fetchers" where
  "example_rejects i =
     \<lparr>groupMetadata = Throws ThrownNullish, sock_groupMetadata = NoFunction,
      getGroupMetadata = NoFunction, sock_fetchGroupMetadata = NoFunction\<rparr>"



definition example_promote :: gp_update where
  "example_promote =
     \<lparr>upd_id = JStr ''g@g.us'', upd_participants = [Prim (JStr ''u@s.whatsapp.net'')],
      upd_action = ''promote''\<rparr>"

definition example_demote :: gp_update where
  "example_demote =
     \<lparr>upd_id = JStr ''g@g.us'', upd_participants = [Prim (JStr ''u@s.whatsapp.net'')],
      upd_action = ''demote''\<rparr>"

definition bot_without_entries :: bot where
  "bot_without_entries = \<lparr>adminCache = Map.empty, adminCacheFetches = Map.empty\<rparr>"

definition bot_with_entry :: "jsval set \<Rightarrow> bot" where
  "bot_with_entry admins =
     \<lparr>adminCache = [JStr ''g@g.us'' \<mapsto> admins], adminCacheFetches = Map.empty\<rparr>"

section \<open>Properties of identity normalisation\<close>

lemma char_eq_code: "(c = d) = ((of_char c :: nat) = of_char d)"
  by auto

lemma is_ws_code: "is_ws c = ((of_char c :: nat) \<in> {9,10,11,12,13,32,160})"
  unfolding is_ws_def by (simp add: char_eq_code)

lemma of_char_lower:
  "(of_char (lower_char c) :: nat) =
     (let n = of_char c in
      if (65 \<le> n \<and> n \<le> 90) \<or> (192 \<le> n \<and> n \<le> 214) \<or> (216 \<le> n \<and> n \<le> 222)
      then n + 32 else n)"
  by (auto simp add: lower_char_def Let_def)

lemma lower_char_ws: "is_ws (lower_char c) = is_ws c"
  by (auto simp add: is_ws_code of_char_lower Let_def)

lemma is_sep_code: "is_sep c = ((of_char c :: nat) \<in> {58, 47})"
  unfolding is_sep_def by (simp add: char_eq_code)

lemma lower_char_sep: "is_sep (lower_char c) = is_sep c"
  by (auto simp add: is_sep_code of_char_lower Let_def)

lemma lower_char_at: "(lower_char c = CHR ''@'') = (c = CHR ''@'')"
  by (auto simp add: char_eq_code of_char_lower Let_def)

lemma lower_char_idem: "lower_char (lower_char c) = lower_char c"
  by (auto simp add: char_eq_code of_char_lower Let_def)

lemma toLowerCase_idem: "toLowerCase (toLowerCase x) = toLowerCase x"
  by (simp add: toLowerCase_def lower_char_idem)

lemma dropWhile_ws_lower: "dropWhile is_ws (toLowerCase x) = toLowerCase (dropWhile is_ws x)"
  by (simp add: toLowerCase_def dropWhile_map comp_def lower_char_ws)

lemma trim_lower: "trim (toLowerCase x) = toLowerCase (trim x)"
proof -
  have "rev (toLowerCase y) = toLowerCase (rev y)" for y
    by (simp add: toLowerCase_def rev_map)
  then show ?thesis
    by (simp add: trim_def dropWhile_ws_lower)
qed

lemma split_first_lower: "split_first (toLowerCase x) = toLowerCase (split_first x)"
  by (simp add: split_first_def toLowerCase_def takeWhile_map comp_def lower_char_sep)

lemma at_lower: "(CHR ''@'' \<in> set (toLowerCase x)) = (CHR ''@'' \<in> set x)"
proof -
  have "(CHR ''@'' = lower_char c) = (c = CHR ''@'')" for c
    using lower_char_at[of c] by auto
  then show ?thesis by (auto simp: toLowerCase_def image_iff)
qed

lemma dropWhile_keeps: "c \<in> set x \<Longrightarrow> \<not> P c \<Longrightarrow> c \<in> set (dropWhile P x)"
  by (induction x) auto

lemma at_trim: "(CHR ''@'' \<in> set (trim x)) = (CHR ''@'' \<in> set x)"
proof
  assume "CHR ''@'' \<in> set (trim x)"
  then show "CHR ''@'' \<in> set x"
    unfolding trim_def by (metis set_dropWhileD set_rev)
next
  assume a: "CHR ''@'' \<in> set x"
  have nw: "\<not> is_ws CHR ''@''" by (simp add: is_ws_def)
  from a nw have "CHR ''@'' \<in> set (dropWhile is_ws x)" by (rule dropWhile_keeps)
  then have "CHR ''@'' \<in> set (rev (dropWhile is_ws x))" by simp
  from this nw have "CHR ''@'' \<in> set (dropWhile is_ws (rev (dropWhile is_ws x)))"
    by (rule dropWhile_keeps)
  then show "CHR ''@'' \<in> set (trim x)" by (simp add: trim_def)
qed

lemma last_dropWhile: "dropWhile P xs \<noteq> [] \<Longrightarrow> last (dropWhile P xs) = last xs"
  by (induction xs) auto

lemma trimmed_trim: "trimmed (trim x)"
proof (cases "trim x = []")
  case True then show ?thesis by (simp add: trimmed_def)
next
  case False
  define y where "y = dropWhile is_ws x"
  define z where "z = dropWhile is_ws (rev y)"
  have tz: "trim x = rev z" by (simp add: trim_def y_def z_def)
  from False tz have zne: "z \<noteq> []" by simp
  then have yne: "y \<noteq> []" by (auto simp: z_def)
  have "last z = last (rev y)" using zne unfolding z_def by (rule last_dropWhile)
  also have "\<dots> = hd y" using yne by (simp add: last_rev)
  finally have lz: "last z = hd y" .
  have "\<not> is_ws (hd y)" using yne unfolding y_def by (rule hd_dropWhile)
  moreover have "\<not> is_ws (hd z)" using zne unfolding z_def by (rule hd_dropWhile)
  ultimately show ?thesis using zne lz by (simp add: trimmed_def tz hd_rev last_rev)
qed

lemma trim_eq_iff: "(trim x = x) = trimmed x"
proof (cases "x = []")
  case True then show ?thesis by (simp add: trim_def trimmed_def)
next
  case False
  show ?thesis
  proof
    assume t: "trimmed x"
    with False have h: "\<not> is_ws (hd x)" and l: "\<not> is_ws (last x)" by (auto simp: trimmed_def)
    from False h have 1: "dropWhile is_ws x = x" by (cases x) auto
    from False l have 2: "dropWhile is_ws (rev x) = rev x" by (cases "rev x") (auto simp: last_rev hd_rev dest: arg_cong[where f=hd])
    show "trim x = x" by (simp add: trim_def 1 2)
  next
    assume e: "trim x = x"
    show "trimmed x" using trimmed_trim[of x] e by simp
  qed
qed

lemma lower_fix: "toLowerCase x = x \<Longrightarrow> set y \<subseteq> set x \<Longrightarrow> toLowerCase y = y"
proof -
  assume a: "toLowerCase x = x" and b: "set y \<subseteq> set x"
  have "\<forall>c\<in>set x. lower_char c = c"
    using a unfolding toLowerCase_def by (simp add: map_idI map_eq_conv[of lower_char x id, simplified])
  then have "\<forall>c\<in>set y. lower_char c = c" using b by auto
  then show ?thesis unfolding toLowerCase_def by (simp add: map_idI)
qed

lemma split_first_id: "\<forall>c\<in>set x. \<not> is_sep c \<Longrightarrow> split_first x = x"
  by (simp add: split_first_def)

lemma split_first_nosep: "c \<in> set (split_first x) \<Longrightarrow> \<not> is_sep c"
  unfolding split_first_def by (auto dest: set_takeWhileD)

lemma split_first_subset: "set (split_first x) \<subseteq> set x"
  unfolding split_first_def by (auto dest: set_takeWhileD)

lemma normalizeJid_str:
  assumes "jid \<noteq> []" and "s = toLowerCase (trim jid)"
  shows "normalizeJid (JStr jid) =
    (if CHR ''@'' \<in> set s
     then JStr (split_first (takeWhile (\<lambda>x. x \<noteq> CHR ''@'') s) @ CHR ''@'' #
                tl (dropWhile (\<lambda>x. x \<noteq> CHR ''@'') s))
     else JStr (split_first s))"
proof -
  have "drop (Suc (length (takeWhile P s))) s = tl (dropWhile P s)" for P
    by (simp add: dropWhile_eq_drop drop_Suc tl_drop)
  then show ?thesis
    using assms by (simp add: indexOf_def Let_def takeWhile_eq_take[symmetric])
qed

text \<open>Strings that are already in normal form.\<close>

lemma normalize_plain:
  assumes low: "toLowerCase r = r" and nat: "CHR ''@'' \<notin> set r"
    and nosep: "\<forall>c\<in>set r. \<not> is_sep c"
  shows "normalizeJid (JStr r) = JStr (trim r)"
proof (cases "r = []")
  case True then show ?thesis by (simp add: trim_def)
next
  case False
  have sub: "set (trim r) \<subseteq> set r"
    unfolding trim_def by (metis set_dropWhileD set_rev subsetI)
  have l2: "toLowerCase (trim r) = trim r" using low sub by (rule lower_fix)
  have n2: "CHR ''@'' \<notin> set (trim r)" using nat sub by auto
  have s2: "split_first (trim r) = trim r" using nosep sub by (auto intro: split_first_id)
  show ?thesis using False by (simp add: l2 indexOf_def n2 s2)
qed

lemma normalize_at:
  assumes low: "toLowerCase r = r" and tr: "trimmed r"
    and r: "r = L @ CHR ''@'' # D" and nat: "CHR ''@'' \<notin> set L"
    and nosep: "\<forall>c\<in>set L. \<not> is_sep c"
  shows "normalizeJid (JStr r) = JStr r"
proof -
  have t: "trim r = r" using tr by (simp add: trim_eq_iff)
  have tw: "takeWhile (\<lambda>x. x \<noteq> CHR ''@'') r = L"
    using nat unfolding r by (subst takeWhile_append2) auto
  have dw: "dropWhile (\<lambda>x. x \<noteq> CHR ''@'') r = CHR ''@'' # D"
    using nat unfolding r by (subst dropWhile_append2) auto
  have sf: "split_first L = L" using nosep by (rule split_first_id)
  have ne: "r \<noteq> []" and at: "CHR ''@'' \<in> set r" using r by auto
  have s: "r = toLowerCase (trim r)" by (simp add: t low)
  show ?thesis
    unfolding normalizeJid_str[OF ne s] using at by (simp add: tw dw sf r[symmetric])
qed


lemma hd_takeWhile: "takeWhile P xs \<noteq> [] \<Longrightarrow> hd (takeWhile P xs) = hd xs"
  by (cases xs) (auto split: if_splits)

lemma normalize_twice_plain:
  assumes ne: "jid \<noteq> []" and nat: "CHR ''@'' \<notin> set jid"
  shows "(normalizeJid (normalizeJid (JStr jid)) = normalizeJid (JStr jid)) =
         (\<not> ws_before_sep (JStr jid))"
proof -
  define s where "s = toLowerCase (trim jid)"
  define l where "l = split_first (trim jid)"
  define r where "r = split_first s"
  have nats: "CHR ''@'' \<notin> set s" using nat by (simp add: s_def at_lower at_trim)
  have n1: "normalizeJid (JStr jid) = JStr r"
    using normalizeJid_str[OF ne s_def] nats by (simp add: r_def)
  have rl: "r = toLowerCase l" by (simp add: r_def s_def l_def split_first_lower)
  have low: "toLowerCase r = r" by (simp add: rl toLowerCase_idem)
  have natr: "CHR ''@'' \<notin> set r" using nats split_first_subset[of s] by (auto simp: r_def)
  have nosep: "\<forall>c\<in>set r. \<not> is_sep c" by (auto simp: r_def dest: split_first_nosep)
  have n2: "normalizeJid (JStr r) = JStr (trim r)" using low natr nosep by (rule normalize_plain)
  have ts: "trimmed s" using trimmed_trim[of "toLowerCase jid"] by (simp add: s_def trim_lower)
  have hd_ok: "\<not> is_ws (hd r)" if "r \<noteq> []"
  proof -
    have "hd r = hd s" using that unfolding r_def split_first_def by (rule hd_takeWhile)
    moreover have "s \<noteq> []" using that by (auto simp: r_def split_first_def)
    ultimately show ?thesis using ts by (simp add: trimmed_def)
  qed
  have last_r: "is_ws (last r) = is_ws (last l)" if "l \<noteq> []"
    using that by (simp add: rl toLowerCase_def last_map lower_char_ws)
  have e: "(r = []) = (l = [])" by (simp add: rl toLowerCase_def)
  have "(trim r = r) = (l = [] \<or> \<not> is_ws (last l))"
    using hd_ok last_r e by (auto simp: trim_eq_iff trimmed_def)
  then show ?thesis
    unfolding n1 n2 using nat by (simp add: ws_before_sep_def l_def Let_def)
qed

lemma normalize_twice_at:
  assumes ne: "jid \<noteq> []" and at: "CHR ''@'' \<in> set jid"
  shows "normalizeJid (normalizeJid (JStr jid)) = normalizeJid (JStr jid)"
proof -
  define s where "s = toLowerCase (trim jid)"
  define pre where "pre = takeWhile (\<lambda>x. x \<noteq> CHR ''@'') s"
  define L where "L = split_first pre"
  define D where "D = tl (dropWhile (\<lambda>x. x \<noteq> CHR ''@'') s)"
  define r where "r = L @ CHR ''@'' # D"
  have ats: "CHR ''@'' \<in> set s" using at by (simp add: s_def at_lower at_trim)
  have n1: "normalizeJid (JStr jid) = JStr r"
    using normalizeJid_str[OF ne s_def] ats by (simp add: r_def L_def D_def pre_def)
  have sne: "s \<noteq> []" using ats by auto
  have ts: "trimmed s" using trimmed_trim[of "toLowerCase jid"] by (simp add: s_def trim_lower)
  have dw: "dropWhile (\<lambda>x. x \<noteq> CHR ''@'') s = CHR ''@'' # D"
  proof -
    have "dropWhile (\<lambda>x. x \<noteq> CHR ''@'') s \<noteq> []" using ats by (simp add: dropWhile_eq_Nil_conv)
    moreover from this have "hd (dropWhile (\<lambda>x. x \<noteq> CHR ''@'') s) = CHR ''@''"
      using hd_dropWhile[of "\<lambda>x. x \<noteq> CHR ''@''" s] by simp
    ultimately show ?thesis unfolding D_def by (cases "dropWhile (\<lambda>x. x \<noteq> CHR ''@'') s") auto
  qed
  have s_split: "s = pre @ CHR ''@'' # D"
    using takeWhile_dropWhile_id[of "\<lambda>x. x \<noteq> CHR ''@''" s] by (simp add: pre_def dw)
  have subL: "set L \<subseteq> set pre" unfolding L_def by (rule split_first_subset)
  have sub: "set r \<subseteq> set s" using subL by (subst s_split) (auto simp: r_def)
  have low: "toLowerCase r = r"
    using toLowerCase_idem[of "trim jid"] sub unfolding s_def[symmetric] by (rule lower_fix)
  have natL: "CHR ''@'' \<notin> set L" using subL by (auto simp: pre_def dest: set_takeWhileD)
  have nosep: "\<forall>c\<in>set L. \<not> is_sep c" by (auto simp: L_def dest: split_first_nosep)
  have hd_ok: "\<not> is_ws (hd r)"
  proof (cases "L = []")
    case True then show ?thesis by (simp add: r_def is_ws_def)
  next
    case False
    then have "hd L = hd pre" unfolding L_def split_first_def by (rule hd_takeWhile)
    moreover have "pre \<noteq> []" using False by (auto simp: L_def split_first_def)
    ultimately have "hd r = hd s" using False by (simp add: r_def s_split)
    then show ?thesis using ts sne by (simp add: trimmed_def)
  qed
  have last_ok: "\<not> is_ws (last r)"
  proof (cases "D = []")
    case True then show ?thesis by (simp add: r_def is_ws_def)
  next
    case False
    then have "last r = last s" by (simp add: r_def s_split)
    then show ?thesis using ts sne by (simp add: trimmed_def)
  qed
  have tr: "trimmed r" using hd_ok last_ok by (simp add: trimmed_def)
  have "normalizeJid (JStr r) = JStr r" using low tr r_def natL nosep by (rule normalize_at)
  then show ?thesis unfolding n1 .
qed

text \<open>
  C9 (amended). \<^verbatim>\<open>normalizeJid\<close> has no failing branch: it returns a non-string
  argument as it is and maps a string to a string. Normalising twice gives the same as
  normalising once exactly when the input is not one of the strings described by
  \<open>ws_before_sep\<close>; in particular for every non-string, for every string that contains
  an \<^verbatim>\<open>@\<close>, and for every string without white space.
\<close>

theorem normalizeJid_total_idempotent_iff:
  "((normalizeJid (normalizeJid v) = normalizeJid v) = (\<not> ws_before_sep v)) \<and>
   (case v of JStr jid \<Rightarrow> (\<exists>r. normalizeJid v = JStr r) | _ \<Rightarrow> normalizeJid v = v)"
proof (cases v)
  case (JStr jid)
  have tot: "\<exists>r. normalizeJid (JStr jid) = JStr r"
    by (simp add: Let_def split: option.splits)
  have idem: "(normalizeJid (normalizeJid (JStr jid)) = normalizeJid (JStr jid)) =
         (\<not> ws_before_sep (JStr jid))"
  proof (cases "jid = []")
    case True then show ?thesis by (simp add: ws_before_sep_def trim_def split_first_def)
  next
    case False
    show ?thesis
    proof (cases "CHR ''@'' \<in> set jid")
      case True
      then show ?thesis using normalize_twice_at[OF False True] by (simp add: ws_before_sep_def)
    next
      case f: False
      show ?thesis using False f by (rule normalize_twice_plain)
    qed
  qed
  show ?thesis using tot idem by (simp add: JStr)
qed (simp_all add: ws_before_sep_def)

text \<open>
  C9 as stated fails: \<^verbatim>\<open>"a :b"\<close> normalises to \<^verbatim>\<open>"a "\<close>, which normalises to
  \<^verbatim>\<open>"a"\<close>.
\<close>

theorem normalizeJid_not_idempotent:
  "normalizeJid (normalizeJid (JStr ''a :b'')) \<noteq> normalizeJid (JStr ''a :b'')"
  by (simp add: toLowerCase_def trim_def is_ws_def lower_char_def indexOf_def split_first_def is_sep_def)

section \<open>Role-change events on an existing entry\<close>

lemma gpHandler_promote:
  "truthy g \<Longrightarrow> adminCache b g = Some A \<Longrightarrow>
   gpHandler b \<lparr>upd_id = g, upd_participants = us, upd_action = ''promote''\<rparr> =
   b\<lparr>adminCache := (adminCache b)(g \<mapsto> A \<union> set (filter truthy (map normalizeParticipantId us)))\<rparr>"
  by (simp add: gpHandler_def)

lemma gpHandler_demote:
  "truthy g \<Longrightarrow> adminCache b g = Some A \<Longrightarrow>
   gpHandler b \<lparr>upd_id = g, upd_participants = us, upd_action = ''demote''\<rparr> =
   b\<lparr>adminCache := (adminCache b)(g \<mapsto> A - set (filter truthy (map normalizeParticipantId us)))\<rparr>"
  by (simp add: gpHandler_def)

text \<open>
  C7 (amended). On an existing entry, a promote event for \<open>u\<close> followed by a demote event
  for \<open>u\<close> leaves the entry without the normalised id of \<open>u\<close> and otherwise as it
  was: everything else in the bot is unchanged. So the membership of \<open>u\<close> is what it was
  before the promote exactly when \<open>u\<close> was not in the set then (or when the id of \<open>u\<close>
  is filtered out as falsy, and the two events change nothing).
\<close>

theorem gpHandler_promote_then_demote:
  assumes g: "truthy g" and entry: "adminCache b g = Some A"
  shows "let pid = normalizeParticipantId u;
             b' = gpHandler (gpHandler b \<lparr>upd_id = g, upd_participants = [u], upd_action = ''promote''\<rparr>)
                    \<lparr>upd_id = g, upd_participants = [u], upd_action = ''demote''\<rparr>
         in b' = b\<lparr>adminCache := (adminCache b)(g \<mapsto> (if truthy pid then A - {pid} else A))\<rparr> \<and>
            (if truthy pid then pid \<notin> the (adminCache b' g) else the (adminCache b' g) = A) \<and>
            ((pid \<in> the (adminCache b' g)) = (pid \<in> A)) = (\<not> truthy pid \<or> pid \<notin> A)"
proof -
  define pid where "pid = normalizeParticipantId u"
  let ?P = "set (filter truthy (map normalizeParticipantId [u]))"
  let ?b1 = "gpHandler b \<lparr>upd_id = g, upd_participants = [u], upd_action = ''promote''\<rparr>"
  let ?b2 = "gpHandler ?b1 \<lparr>upd_id = g, upd_participants = [u], upd_action = ''demote''\<rparr>"
  have 1: "?b1 = b\<lparr>adminCache := (adminCache b)(g \<mapsto> A \<union> ?P)\<rparr>"
    using g entry by (rule gpHandler_promote)
  have e1: "adminCache ?b1 g = Some (A \<union> ?P)" by (simp add: 1)
  have 2: "?b2 = ?b1\<lparr>adminCache := (adminCache ?b1)(g \<mapsto> (A \<union> ?P) - ?P)\<rparr>"
    using g e1 by (rule gpHandler_demote)
  have 3: "?b2 = b\<lparr>adminCache := (adminCache b)(g \<mapsto> (A \<union> ?P) - ?P)\<rparr>"
    unfolding 2 by (simp add: 1)
  have P: "?P = (if truthy pid then {pid} else {})" by (simp add: pid_def)
  have "(A \<union> ?P) - ?P = (if truthy pid then A - {pid} else A)" unfolding P by auto
  then have 4: "?b2 = b\<lparr>adminCache := (adminCache b)(g \<mapsto> (if truthy pid then A - {pid} else A))\<rparr>"
    using 3 by simp
  show ?thesis unfolding Let_def pid_def[symmetric] 4 by auto
qed

lemma normalize_example_u: "normalizeJid (JStr ''U@s.whatsapp.net'') = JStr ''u@s.whatsapp.net''"
  by code_simp

theorem gpHandler_promote_then_demote_witness:
  "truthy (JStr ''g@g.us'') \<and>
   adminCache \<lparr>adminCache = [JStr ''g@g.us'' \<mapsto> {JStr ''x@s.whatsapp.net''}],
               adminCacheFetches = Map.empty\<rparr> (JStr ''g@g.us'') = Some {JStr ''x@s.whatsapp.net''} \<and>
   gpHandler (gpHandler \<lparr>adminCache = [JStr ''g@g.us'' \<mapsto> {JStr ''x@s.whatsapp.net''}],
                          adminCacheFetches = Map.empty\<rparr>
                \<lparr>upd_id = JStr ''g@g.us'', upd_participants = [Prim (JStr ''U@s.whatsapp.net'')],
                 upd_action = ''promote''\<rparr>)
     \<lparr>upd_id = JStr ''g@g.us'', upd_participants = [Prim (JStr ''U@s.whatsapp.net'')],
      upd_action = ''demote''\<rparr> =
   \<lparr>adminCache = [JStr ''g@g.us'' \<mapsto> {JStr ''x@s.whatsapp.net''}], adminCacheFetches = Map.empty\<rparr>"
proof -
  have g: "truthy (JStr ''g@g.us'')" by simp
  have e: "adminCache \<lparr>adminCache = [JStr ''g@g.us'' \<mapsto> {JStr ''x@s.whatsapp.net''}],
               adminCacheFetches = Map.empty\<rparr> (JStr ''g@g.us'') = Some {JStr ''x@s.whatsapp.net''}"
    by simp
  have p: "normalizeParticipantId (Prim (JStr ''U@s.whatsapp.net'')) = JStr ''u@s.whatsapp.net''"
    by (simp add: normalizeParticipantId_def normalize_example_u del: normalizeJid.simps)
  show ?thesis
    using gpHandler_promote_then_demote[OF g e, of "Prim (JStr ''U@s.whatsapp.net'')"] g e
    unfolding Let_def p by simp
qed

text \<open>
  C7 as stated fails when \<open>u\<close> was an admin before the promote: the demote removes
  \<open>u\<close>.
\<close>

theorem gpHandler_promote_demote_removes_admin:
  "adminCache (bot_with_entry {JStr ''u@s.whatsapp.net''}) (JStr ''g@g.us'') =
     Some {JStr ''u@s.whatsapp.net''} \<and>
   adminCache (gpHandler (gpHandler (bot_with_entry {JStr ''u@s.whatsapp.net''}) example_promote)
                 example_demote) (JStr ''g@g.us'') = Some {}"
  by (simp add: bot_with_entry_def example_promote_def example_demote_def gpHandler_def
        normalizeParticipantId_def toLowerCase_def trim_def is_ws_def lower_char_def indexOf_def
        split_first_def is_sep_def Let_def)

section \<open>The retrying fetch\<close>

lemma first_truthy_only_calls:
  "filter (\<lambda>e. \<not> is_call e) (snd (first_truthy cs)) = []"
proof (induction cs rule: first_truthy.induct)
  case (4 name m cs)
  then show ?case by (cases m) (auto split: prod.splits)
qed auto

lemma try_fetch_only_calls:
  "filter (\<lambda>e. \<not> is_call e) (snd (try_fetch f)) = []"
  by (simp only: try_fetch_def first_truthy_only_calls)

lemma first_truthy_fails:
  "\<forall>c\<in>set cs. call_fails (snd c) \<Longrightarrow> \<forall>arr. fst (first_truthy cs) \<noteq> Inr (Meta arr)"
proof (induction cs rule: first_truthy.induct)
  case (4 name m cs)
  then show ?case by (cases m) (auto split: prod.splits)
qed auto

lemma try_fetch_fails:
  assumes "all_calls_fail f"
  shows "attempt_value f = None"
proof -
  have "\<forall>arr. fst (try_fetch f) \<noteq> Inr (Meta arr)"
    using assms first_truthy_fails[of "[(''bot.groupMetadata'', groupMetadata f),
      (''bot.sock.groupMetadata'', sock_groupMetadata f),
      (''bot.getGroupMetadata'', getGroupMetadata f),
      (''bot.sock.fetchGroupMetadata'', sock_fetchGroupMetadata f)]"]
    by (simp add: try_fetch_def all_calls_fail_def)
  then show ?thesis
    by (auto simp: attempt_value_def split: sum.splits metadata.splits)
qed

lemma retry_loop_done: "\<not> i < 3 \<Longrightarrow> retry_loop w i = (Inr Falsy, [Error])"
  by (simp add: retry_loop.simps)

lemma retry_loop_fail_step:
  assumes "i < 3"
    and "fst (try_fetch (w i)) = Inr Falsy \<or> fst (try_fetch (w i)) = Inl ThrownOther"
  shows "retry_loop w i =
    (fst (retry_loop w (Suc i)),
     Attempt i # snd (try_fetch (w i)) @ [Warn (Suc i)] @
       (if i < 2 then [Sleep (300 * Suc i)] else []) @ snd (retry_loop w (Suc i)))"
  using assms
  by (subst retry_loop.simps) (auto simp: after_failure_def split: prod.splits)

lemma retry_loop_success_step:
  assumes "i < 3" and "fst (try_fetch (w i)) = Inr (Meta arr)"
  shows "retry_loop w i = (Inr (Meta arr), Attempt i # snd (try_fetch (w i)))"
  using assms by (subst retry_loop.simps) (auto split: prod.splits)

lemma retry_loop_reject_step:
  assumes "i < 3" and "fst (try_fetch (w i)) = Inl ThrownNullish"
  shows "retry_loop w i = (Inl TypeError, Attempt i # snd (try_fetch (w i)))"
  using assms by (subst retry_loop.simps) (auto split: prod.splits)

lemma try_fetch_cases:
  obtains (fail) "fst (try_fetch f) = Inr Falsy \<or> fst (try_fetch f) = Inl ThrownOther"
      "attempt_value f = None"
  | (ok) arr where "fst (try_fetch f) = Inr (Meta arr)" "attempt_value f = Some (Meta arr)"
  | (nullish) "fst (try_fetch f) = Inl ThrownNullish"
proof (cases "fst (try_fetch f)")
  case (Inl e)
  then show ?thesis using fail nullish by (cases e) (simp_all add: attempt_value_def)
next
  case (Inr m)
  then show ?thesis using fail ok by (cases m) (simp_all add: attempt_value_def)
qed

text \<open>
  The loop from its last, its second and its first iteration, when no attempt ends with a
  thrown null or undefined: the value, and what happens besides the calls.
\<close>

lemma retry_loop_last:
  assumes "fst (try_fetch (w (Suc (Suc 0)))) \<noteq> Inl ThrownNullish"
  shows "fst (retry_loop w (Suc (Suc 0))) =
           Inr (case attempt_value (w (Suc (Suc 0))) of Some m \<Rightarrow> m | None \<Rightarrow> Falsy)"
    and "filter (\<lambda>e. \<not> is_call e) (snd (retry_loop w (Suc (Suc 0)))) =
           (if attempt_value (w (Suc (Suc 0))) \<noteq> None then [Attempt 2]
            else [Attempt 2, Warn 3, Error])"
proof -
  let ?two = "Suc (Suc 0)" and ?three = "Suc (Suc (Suc 0))"
  have r3: "retry_loop w ?three = (Inr Falsy, [Error])" by (simp add: retry_loop_done)
  have "fst (retry_loop w ?two) =
           Inr (case attempt_value (w ?two) of Some m \<Rightarrow> m | None \<Rightarrow> Falsy) \<and>
        filter (\<lambda>e. \<not> is_call e) (snd (retry_loop w ?two)) =
           (if attempt_value (w ?two) \<noteq> None then [Attempt 2] else [Attempt 2, Warn 3, Error])"
  proof (cases "w ?two" rule: try_fetch_cases)
    case nullish
    then show ?thesis using assms by simp
  next
    case fail
    show ?thesis
      using retry_loop_fail_step[of ?two w, OF _ fail(1)] fail(2)
      by (simp add: r3 try_fetch_only_calls numeral_2_eq_2 numeral_3_eq_3)
  next
    case (ok arr)
    show ?thesis
      using retry_loop_success_step[of ?two w arr] ok
      by (simp add: try_fetch_only_calls numeral_2_eq_2)
  qed
  then show "fst (retry_loop w ?two) =
           Inr (case attempt_value (w ?two) of Some m \<Rightarrow> m | None \<Rightarrow> Falsy)"
    and "filter (\<lambda>e. \<not> is_call e) (snd (retry_loop w ?two)) =
           (if attempt_value (w ?two) \<noteq> None then [Attempt 2] else [Attempt 2, Warn 3, Error])"
    by simp_all
qed

lemma retry_loop_second:
  assumes "fst (try_fetch (w (Suc 0))) \<noteq> Inl ThrownNullish"
  shows "fst (retry_loop w (Suc 0)) =
           (case attempt_value (w (Suc 0)) of Some m \<Rightarrow> Inr m
            | None \<Rightarrow> fst (retry_loop w (Suc (Suc 0))))"
    and "filter (\<lambda>e. \<not> is_call e) (snd (retry_loop w (Suc 0))) =
           (if attempt_value (w (Suc 0)) \<noteq> None then [Attempt 1]
            else [Attempt 1, Warn 2, Sleep 600] @
                 filter (\<lambda>e. \<not> is_call e) (snd (retry_loop w (Suc (Suc 0)))))"
proof -
  let ?one = "Suc 0" and ?two = "Suc (Suc 0)"
  have "fst (retry_loop w ?one) =
           (case attempt_value (w ?one) of Some m \<Rightarrow> Inr m | None \<Rightarrow> fst (retry_loop w ?two)) \<and>
        filter (\<lambda>e. \<not> is_call e) (snd (retry_loop w ?one)) =
           (if attempt_value (w ?one) \<noteq> None then [Attempt 1]
            else [Attempt 1, Warn 2, Sleep 600] @
                 filter (\<lambda>e. \<not> is_call e) (snd (retry_loop w ?two)))"
  proof (cases "w ?one" rule: try_fetch_cases)
    case nullish
    then show ?thesis using assms by simp
  next
    case fail
    show ?thesis
      using retry_loop_fail_step[of ?one w, OF _ fail(1)] fail(2)
      by (simp add: try_fetch_only_calls numeral_2_eq_2)
  next
    case (ok arr)
    show ?thesis
      using retry_loop_success_step[of ?one w arr] ok
      by (simp add: try_fetch_only_calls)
  qed
  then show "fst (retry_loop w ?one) =
           (case attempt_value (w ?one) of Some m \<Rightarrow> Inr m | None \<Rightarrow> fst (retry_loop w ?two))"
    and "filter (\<lambda>e. \<not> is_call e) (snd (retry_loop w ?one)) =
           (if attempt_value (w ?one) \<noteq> None then [Attempt 1]
            else [Attempt 1, Warn 2, Sleep 600] @
                 filter (\<lambda>e. \<not> is_call e) (snd (retry_loop w ?two)))"
    by simp_all
qed

lemma retry_loop_first:
  assumes "fst (try_fetch (w 0)) \<noteq> Inl ThrownNullish"
  shows "fst (retry_loop w 0) =
           (case attempt_value (w 0) of Some m \<Rightarrow> Inr m | None \<Rightarrow> fst (retry_loop w (Suc 0)))"
    and "filter (\<lambda>e. \<not> is_call e) (snd (retry_loop w 0)) =
           (if attempt_value (w 0) \<noteq> None then [Attempt 0]
            else [Attempt 0, Warn 1, Sleep 300] @
                 filter (\<lambda>e. \<not> is_call e) (snd (retry_loop w (Suc 0))))"
proof -
  let ?one = "Suc 0"
  have "fst (retry_loop w 0) =
           (case attempt_value (w 0) of Some m \<Rightarrow> Inr m | None \<Rightarrow> fst (retry_loop w ?one)) \<and>
        filter (\<lambda>e. \<not> is_call e) (snd (retry_loop w 0)) =
           (if attempt_value (w 0) \<noteq> None then [Attempt 0]
            else [Attempt 0, Warn 1, Sleep 300] @
                 filter (\<lambda>e. \<not> is_call e) (snd (retry_loop w ?one)))"
  proof (cases "w 0" rule: try_fetch_cases)
    case nullish
    then show ?thesis using assms by simp
  next
    case fail
    show ?thesis
      using retry_loop_fail_step[of 0 w, OF _ fail(1)] fail(2)
      by (simp add: try_fetch_only_calls)
  next
    case (ok arr)
    show ?thesis
      using retry_loop_success_step[of 0 w arr] ok
      by (simp add: try_fetch_only_calls)
  qed
  then show "fst (retry_loop w 0) =
           (case attempt_value (w 0) of Some m \<Rightarrow> Inr m | None \<Rightarrow> fst (retry_loop w ?one))"
    and "filter (\<lambda>e. \<not> is_call e) (snd (retry_loop w 0)) =
           (if attempt_value (w 0) \<noteq> None then [Attempt 0]
            else [Attempt 0, Warn 1, Sleep 300] @
                 filter (\<lambda>e. \<not> is_call e) (snd (retry_loop w ?one)))"
    by simp_all
qed

lemma retry_loop_outcome:
  assumes readable: "\<And>i. i < 3 \<Longrightarrow> fst (try_fetch (w i)) \<noteq> Inl ThrownNullish"
  shows "fst (retry_loop w 0) =
           Inr (case attempt_value (w 0) of Some m \<Rightarrow> m
                | None \<Rightarrow> (case attempt_value (w 1) of Some m \<Rightarrow> m
                | None \<Rightarrow> (case attempt_value (w 2) of Some m \<Rightarrow> m | None \<Rightarrow> Falsy)))"
    and "filter (\<lambda>e. \<not> is_call e) (snd (retry_loop w 0)) =
           (if attempt_value (w 0) \<noteq> None then [Attempt 0]
            else if attempt_value (w 1) \<noteq> None then [Attempt 0, Warn 1, Sleep 300, Attempt 1]
            else if attempt_value (w 2) \<noteq> None
              then [Attempt 0, Warn 1, Sleep 300, Attempt 1, Warn 2, Sleep 600, Attempt 2]
            else [Attempt 0, Warn 1, Sleep 300, Attempt 1, Warn 2, Sleep 600, Attempt 2,
                  Warn 3, Error])"
proof -
  have a0: "fst (try_fetch (w 0)) \<noteq> Inl ThrownNullish" by (rule readable) simp
  have a1: "fst (try_fetch (w (Suc 0))) \<noteq> Inl ThrownNullish"
    using readable[of 1] by simp
  have a2: "fst (try_fetch (w (Suc (Suc 0)))) \<noteq> Inl ThrownNullish"
    using readable[of 2] by (simp add: numeral_2_eq_2)
  show "fst (retry_loop w 0) =
           Inr (case attempt_value (w 0) of Some m \<Rightarrow> m
                | None \<Rightarrow> (case attempt_value (w 1) of Some m \<Rightarrow> m
                | None \<Rightarrow> (case attempt_value (w 2) of Some m \<Rightarrow> m | None \<Rightarrow> Falsy)))"
    unfolding retry_loop_first(1)[of w, OF a0] retry_loop_second(1)[of w, OF a1]
      retry_loop_last(1)[of w, OF a2]
      numeral_2_eq_2 One_nat_def
    by (simp split: option.splits)
  show "filter (\<lambda>e. \<not> is_call e) (snd (retry_loop w 0)) =
           (if attempt_value (w 0) \<noteq> None then [Attempt 0]
            else if attempt_value (w 1) \<noteq> None then [Attempt 0, Warn 1, Sleep 300, Attempt 1]
            else if attempt_value (w 2) \<noteq> None
              then [Attempt 0, Warn 1, Sleep 300, Attempt 1, Warn 2, Sleep 600, Attempt 2]
            else [Attempt 0, Warn 1, Sleep 300, Attempt 1, Warn 2, Sleep 600, Attempt 2,
                  Warn 3, Error])"
    unfolding retry_loop_first(2)[of w, OF a0] retry_loop_second(2)[of w, OF a1]
      retry_loop_last(2)[of w, OF a2]
      numeral_2_eq_2 One_nat_def
    by simp
qed

lemma fetch_fresh:
  assumes chat: "truthy chatId" and fresh: "adminCacheFetches b chatId = None"
  shows "fetchGroupMetadataDeduped (Some b) chatId w =
           (fst (retry_loop w 0), snd (retry_loop w 0), Some b)"
proof -
  have "(adminCacheFetches b)(chatId := None) = adminCacheFetches b"
    using fresh by (simp add: fun_upd_idem)
  then have b: "b\<lparr>adminCacheFetches := (adminCacheFetches b)(chatId := None)\<rparr> = b" by simp
  show ?thesis
    using chat fresh by (simp add: fetchGroupMetadataDeduped_def b split: prod.splits)
qed

text \<open>
  When every metadata call of every attempt fails, and none of them throws null or
  undefined, a fetch for a chat without a fetch in flight runs the loop body exactly three
  times, sleeps 300 ms after the first failed attempt and 600 ms after the second, does not
  sleep after the third, logs the final error and resolves to the falsy value. The bot is
  as before: the in-flight entry is removed again.
\<close>

lemma fetch_all_fail_readable_three_attempts:
  assumes fail: "\<And>i. i < 3 \<Longrightarrow> all_calls_fail (w i)"
    and readable: "\<And>i. i < 3 \<Longrightarrow> fst (try_fetch (w i)) \<noteq> Inl ThrownNullish"
    and chat: "truthy chatId" and fresh: "adminCacheFetches b chatId = None"
  shows "\<exists>tr. fetchGroupMetadataDeduped (Some b) chatId w = (Inr Falsy, tr, Some b) \<and>
           filter (\<lambda>e. \<not> is_call e) tr =
             [Attempt 0, Warn 1, Sleep 300, Attempt 1, Warn 2, Sleep 600, Attempt 2, Warn 3, Error]"
proof -
  have v: "attempt_value (w 0) = None" "attempt_value (w 1) = None" "attempt_value (w 2) = None"
    using fail by (simp_all add: try_fetch_fails)
  have 1: "fst (retry_loop w 0) = Inr Falsy"
    using retry_loop_outcome(1)[of w] readable v by simp
  have 2: "filter (\<lambda>e. \<not> is_call e) (snd (retry_loop w 0)) =
             [Attempt 0, Warn 1, Sleep 300, Attempt 1, Warn 2, Sleep 600, Attempt 2, Warn 3, Error]"
    using retry_loop_outcome(2)[of w] readable v by simp
  show ?thesis using 1 2 by (simp add: fetch_fresh[OF chat fresh])
qed

text \<open>
  C3. The code at an input on which it departs from the claim: \<^verbatim>\<open>bot.groupMetadata\<close>
  rejects with \<^verbatim>\<open>undefined\<close> at every attempt, so every metadata call fails. The fetch
  makes one attempt only: reading \<^verbatim>\<open>e.message\<close> throws in the \<^verbatim>\<open>catch\<close> block, no
  warning is logged, nothing is slept, there is no second attempt and no final error, and
  the promise rejects instead of resolving to null.
\<close>

theorem fetch_thrown_undefined_one_attempt:
  "all_calls_fail (example_rejects 0) \<and> all_calls_fail (example_rejects 1) \<and>
   all_calls_fail (example_rejects 2) \<and>
   fetchGroupMetadataDeduped (Some bot_without_entries) (JStr ''g@g.us'') example_rejects =
     (Inl TypeError, [Attempt 0, Call ''bot.groupMetadata''], Some bot_without_entries)"
  by (simp add: bot_without_entries_def example_rejects_def all_calls_fail_def
        fetchGroupMetadataDeduped_def retry_loop.simps try_fetch_def)




section \<open>isadmin\<close>

lemma fetch_keeps_cache:
  "\<exists>b'. snd (snd (fetchGroupMetadataDeduped (Some b) chatId w)) = Some b' \<and>
        adminCache b' = adminCache b"
  by (auto simp: fetchGroupMetadataDeduped_def split: option.splits prod.splits)

text \<open>
  C1. For a message that is not the bot's own, in a chat without a cache entry: when the
  fetch resolves to the falsy value, \<^verbatim>\<open>isadmin\<close> returns false, whatever the sender, and
  the admin cache is as before, so the chat still has no entry.
\<close>

theorem isadmin_fetch_failure_is_false:
  assumes key: "ctx_key ctx = Some k" and notme: "\<not> truthy (key_fromMe k)"
    and miss: "adminCache b (chatId_of k ctx) = None"
    and fail: "fst (fetchGroupMetadataDeduped (Some b) (chatId_of k ctx) w) = Inr Falsy"
  shows "fst (isadmin (Some b) ctx w) = False \<and>
         (\<exists>b'. snd (snd (isadmin (Some b) ctx w)) = Some b' \<and> adminCache b' = adminCache b \<and>
               adminCache b' (chatId_of k ctx) = None)"
proof -
  obtain m tr bt where f: "fetchGroupMetadataDeduped (Some b) (chatId_of k ctx) w = (m, tr, bt)"
    by (cases "fetchGroupMetadataDeduped (Some b) (chatId_of k ctx) w")
  have m: "m = Inr Falsy" using fail f by simp
  obtain b' where b': "bt = Some b'" "adminCache b' = adminCache b"
    using fetch_keeps_cache[of b "chatId_of k ctx" w] f by auto
  show ?thesis
    using key notme miss by (simp add: isadmin_def Let_def f m b')
qed

theorem isadmin_fetch_failure_is_false_witness:
  "fst (isadmin (Some \<lparr>adminCache = Map.empty, adminCacheFetches = Map.empty\<rparr>)
          \<lparr>ctx_key = Some \<lparr>key_fromMe = JBool False, key_remoteJid = JStr ''g@g.us'',
                            key_participant = JStr ''u@s.whatsapp.net'', key_from = JUndefined\<rparr>,
           ctx_remoteJid = JUndefined, ctx_participant = JUndefined, ctx_sender = JUndefined\<rparr>
          (\<lambda>i. \<lparr>groupMetadata = Throws ThrownOther, sock_groupMetadata = Resolves Falsy,
                 getGroupMetadata = NoFunction, sock_fetchGroupMetadata = NoFunction\<rparr>)) = False"
  using isadmin_fetch_failure_is_false[of
      "\<lparr>ctx_key = Some \<lparr>key_fromMe = JBool False, key_remoteJid = JStr ''g@g.us'',
                            key_participant = JStr ''u@s.whatsapp.net'', key_from = JUndefined\<rparr>,
           ctx_remoteJid = JUndefined, ctx_participant = JUndefined, ctx_sender = JUndefined\<rparr>"
      "\<lparr>key_fromMe = JBool False, key_remoteJid = JStr ''g@g.us'',
                            key_participant = JStr ''u@s.whatsapp.net'', key_from = JUndefined\<rparr>"
      "\<lparr>adminCache = Map.empty, adminCacheFetches = Map.empty\<rparr>"
      "\<lambda>i. \<lparr>groupMetadata = Throws ThrownOther, sock_groupMetadata = Resolves Falsy,
                 getGroupMetadata = NoFunction, sock_fetchGroupMetadata = NoFunction\<rparr>"]
  by (simp add: chatId_of_def js_or_def fetchGroupMetadataDeduped_def retry_loop.simps
        try_fetch_def after_failure_def)

text \<open>
  The same holds when the fetch rejects: the \<^verbatim>\<open>catch\<close> of \<^verbatim>\<open>isadmin\<close> returns false
  and no entry is stored.
\<close>

lemma isadmin_fetch_rejection_is_false:
  assumes key: "ctx_key ctx = Some k" and notme: "\<not> truthy (key_fromMe k)"
    and miss: "adminCache b (chatId_of k ctx) = None"
    and fail: "fst (fetchGroupMetadataDeduped (Some b) (chatId_of k ctx) w) = Inl err"
  shows "fst (isadmin (Some b) ctx w) = False \<and>
         (\<exists>b'. snd (snd (isadmin (Some b) ctx w)) = Some b' \<and> adminCache b' = adminCache b \<and>
               adminCache b' (chatId_of k ctx) = None)"
proof -
  obtain m tr bt where f: "fetchGroupMetadataDeduped (Some b) (chatId_of k ctx) w = (m, tr, bt)"
    by (cases "fetchGroupMetadataDeduped (Some b) (chatId_of k ctx) w")
  have m: "m = Inl err" using fail f by simp
  obtain b' where b': "bt = Some b'" "adminCache b' = adminCache b"
    using fetch_keeps_cache[of b "chatId_of k ctx" w] f by auto
  show ?thesis
    using key notme miss by (simp add: isadmin_def Let_def f m b')
qed

text \<open>
  So it is when \<^verbatim>\<open>bot.groupMetadata\<close> rejects with \<^verbatim>\<open>undefined\<close>: one attempt, and
  \<^verbatim>\<open>isadmin\<close> returns false.
\<close>

lemma isadmin_fetch_rejection_example:
  "isadmin (Some bot_without_entries) example_admin_ctx example_rejects =
     (False, [Attempt 0, Call ''bot.groupMetadata''], Some bot_without_entries)"
  by (simp add: bot_without_entries_def example_rejects_def example_admin_ctx_def
        isadmin_def chatId_of_def senderRaw_of_def js_or_def endsWith_def
        fetchGroupMetadataDeduped_def retry_loop.simps try_fetch_def)

lemma build_no_admin_flags:
  "\<forall>p\<in>set ps. \<not> isAdminFlag p \<Longrightarrow> buildAdminSetFromParticipants ps = {}"
  by (induction ps) (simp_all add: Let_def)

lemma isadmin_hit:
  assumes "ctx_key ctx = Some k" and "\<not> truthy (key_fromMe k)"
    and "adminCache b (chatId_of k ctx) = Some {}"
  shows "isadmin (Some b) ctx w = (False, [], Some b)"
  using assms by (simp add: isadmin_def Let_def admin_match_def)

text \<open>
  C10 (amended). For a message that is not the bot's own, from a sender in a group chat
  without a cache entry: when the fetch resolves to a truthy value in which no participant
  has an admin flag or role (the array may be missing, empty, or hold plain strings only),
  \<^verbatim>\<open>isadmin\<close> returns false and stores an entry with the empty admin set for the chat.
  As long as the entry for the chat is the empty set, every call for that chat that is not
  the bot's own message returns false without a fetch and without changing the bot.
  Invalidation removes the entry.
\<close>

theorem isadmin_caches_empty_admin_set:
  assumes key: "ctx_key ctx = Some k" and notme: "\<not> truthy (key_fromMe k)"
    and chat: "truthy (chatId_of k ctx)" "endsWith (toString (chatId_of k ctx)) ''@g.us''"
    and sender: "truthy (senderRaw_of k ctx)"
    and miss: "adminCache b (chatId_of k ctx) = None"
    and fetched: "fst (fetchGroupMetadataDeduped (Some b) (chatId_of k ctx) w) = Inr (Meta arr)"
    and noadm: "\<forall>p\<in>set (case arr of Some ps \<Rightarrow> ps | None \<Rightarrow> []). \<not> isAdminFlag p"
  shows "\<exists>tr b1. isadmin (Some b) ctx w = (False, tr, Some b1) \<and>
           adminCache b1 = (adminCache b)(chatId_of k ctx \<mapsto> {}) \<and>
           (\<forall>b2 ctx2 k2 w2.
              adminCache b2 (chatId_of k ctx) = Some {} \<and> ctx_key ctx2 = Some k2 \<and>
              \<not> truthy (key_fromMe k2) \<and> chatId_of k2 ctx2 = chatId_of k ctx \<longrightarrow>
              isadmin (Some b2) ctx2 w2 = (False, [], Some b2)) \<and>
           adminCache (invalidateAdminCacheForChat b1 (chatId_of k ctx)) (chatId_of k ctx) = None"
proof -
  obtain m tr bt where f: "fetchGroupMetadataDeduped (Some b) (chatId_of k ctx) w = (m, tr, bt)"
    by (cases "fetchGroupMetadataDeduped (Some b) (chatId_of k ctx) w")
  have m: "m = Inr (Meta arr)" using fetched f by simp
  obtain b' where b': "bt = Some b'" "adminCache b' = adminCache b"
    using fetch_keeps_cache[of b "chatId_of k ctx" w] f by auto
  have empty: "buildAdminSetFromParticipants (case arr of Some ps \<Rightarrow> ps | None \<Rightarrow> []) = {}"
    using noadm by (rule build_no_admin_flags)
  let ?b1 = "b'\<lparr>adminCache := (adminCache b')(chatId_of k ctx \<mapsto> {})\<rparr>"
  have 1: "isadmin (Some b) ctx w = (False, tr, Some ?b1)"
    using key notme chat sender miss
    by (simp add: isadmin_def Let_def f m b' empty admin_match_def)
  have 2: "adminCache ?b1 = (adminCache b)(chatId_of k ctx \<mapsto> {})" by (simp add: b')
  have 3: "isadmin (Some b2) ctx2 w2 = (False, [], Some b2)"
    if "adminCache b2 (chatId_of k ctx) = Some {}" "ctx_key ctx2 = Some k2"
      "\<not> truthy (key_fromMe k2)" "chatId_of k2 ctx2 = chatId_of k ctx" for b2 ctx2 k2 w2
    using isadmin_hit[of ctx2 k2 b2 w2] that by simp
  have 4: "adminCache (invalidateAdminCacheForChat ?b1 (chatId_of k ctx)) (chatId_of k ctx) = None"
    using chat by (simp add: invalidateAdminCacheForChat_def)
  show ?thesis using 1 2 3 4 by blast
qed


theorem isadmin_caches_empty_admin_set_witness:
  "\<exists>tr b1. isadmin (Some \<lparr>adminCache = Map.empty, adminCacheFetches = Map.empty\<rparr>)
          \<lparr>ctx_key = Some \<lparr>key_fromMe = JBool False, key_remoteJid = JStr ''g@g.us'',
                            key_participant = JStr ''u@s.whatsapp.net'', key_from = JUndefined\<rparr>,
           ctx_remoteJid = JUndefined, ctx_participant = JUndefined, ctx_sender = JUndefined\<rparr>
          (\<lambda>i. \<lparr>groupMetadata = Resolves (Meta (Some [Obj [(''id'', JStr ''u@s.whatsapp.net'')],
                                                       Prim (JStr ''v@s.whatsapp.net'')])),
                 sock_groupMetadata = NoFunction,
                 getGroupMetadata = NoFunction, sock_fetchGroupMetadata = NoFunction\<rparr>) = (False, tr, Some b1) \<and>
        adminCache b1 = [JStr ''g@g.us'' \<mapsto> {}]"
  using isadmin_caches_empty_admin_set[of
      "\<lparr>ctx_key = Some \<lparr>key_fromMe = JBool False, key_remoteJid = JStr ''g@g.us'',
                            key_participant = JStr ''u@s.whatsapp.net'', key_from = JUndefined\<rparr>,
           ctx_remoteJid = JUndefined, ctx_participant = JUndefined, ctx_sender = JUndefined\<rparr>"
      "\<lparr>key_fromMe = JBool False, key_remoteJid = JStr ''g@g.us'',
                            key_participant = JStr ''u@s.whatsapp.net'', key_from = JUndefined\<rparr>"
      "\<lparr>adminCache = Map.empty, adminCacheFetches = Map.empty\<rparr>"
      "(\<lambda>i. \<lparr>groupMetadata = Resolves (Meta (Some [Obj [(''id'', JStr ''u@s.whatsapp.net'')],
                                                       Prim (JStr ''v@s.whatsapp.net'')])),
                 sock_groupMetadata = NoFunction,
                 getGroupMetadata = NoFunction, sock_fetchGroupMetadata = NoFunction\<rparr>)"
      "Some [Obj [(''id'', JStr ''u@s.whatsapp.net'')], Prim (JStr ''v@s.whatsapp.net'')]"]
  by (simp add: chatId_of_def senderRaw_of_def js_or_def endsWith_def
        fetchGroupMetadataDeduped_def retry_loop.simps try_fetch_def isAdminFlag_def
        toLowerCase_def) blast

text \<open>
  C10 as stated fails: after the empty entry is stored, a promote event changes it without
  deleting it, and the next call for the promoted user returns true; and a call for the
  bot's own message returns true whatever the entry holds.
\<close>

theorem isadmin_empty_entry_then_promote:
  "isadmin (Some bot_without_entries) example_admin_ctx example_members =
     (False, [Attempt 0, Call ''bot.groupMetadata''], Some (bot_with_entry {})) \<and>
   gpHandler (bot_with_entry {}) example_promote = bot_with_entry {JStr ''u@s.whatsapp.net''} \<and>
   isadmin (Some (bot_with_entry {JStr ''u@s.whatsapp.net''})) example_admin_ctx example_members =
     (True, [], Some (bot_with_entry {JStr ''u@s.whatsapp.net''})) \<and>
   fst (isadmin (Some (bot_with_entry {})) example_own_ctx example_members) = True"
  by (simp add: bot_without_entries_def bot_with_entry_def example_admin_ctx_def
        example_own_ctx_def example_members_def example_promote_def
        Let_def isadmin_def chatId_of_def senderRaw_of_def js_or_def endsWith_def
        fetchGroupMetadataDeduped_def retry_loop.simps try_fetch_def isAdminFlag_def
        toLowerCase_def gpHandler_def normalizeParticipantId_def admin_match_def jidEquals_def
        trim_def is_ws_def lower_char_def indexOf_def split_first_def is_sep_def nullish_def)

section \<open>The warning counters\<close>

lemma sender_of_nonempty: "nonempty (m_remoteJid ctx) \<Longrightarrow> sender_of ctx \<noteq> []"
  by (cases "m_remoteJid ctx"; cases "m_participant ctx") (auto simp: sender_of_def str_or_def)

lemma increment_at_key:
  assumes "nonempty (m_remoteJid ctx)"
    and "k = userKey (the (m_remoteJid ctx)) (sender_of ctx)"
    and "count = (case w k of None \<Rightarrow> 0 | Some c \<Rightarrow> c) + 1"
  shows "incrementWarningAndMaybeRemove cfg ctx ok w =
     (if REMOVE_ON_MAX cfg \<and> count \<ge> MAX_WARNS cfg
      then (if ok then ((count, True), w(k := None)) else ((0, False), w(k \<mapsto> count)))
      else ((count, False), w(k \<mapsto> count)))"
  using assms sender_of_nonempty[of ctx]
  by (simp add: incrementWarningAndMaybeRemove_def Let_def)

text \<open>
  C4. With \<^verbatim>\<open>MAX_WARNS = 3\<close> and removal enabled, for a pair without a counter: the first
  two violations return counts 1 and 2 without removal, the third (its removal call
  succeeding) returns count 3 with removal and deletes the counter, and a fourth returns
  count 1 without removal. Between the calls the counters of other pairs may change.
\<close>

theorem three_warnings_then_removed:
  assumes cfg: "MAX_WARNS cfg = 3" "REMOVE_ON_MAX cfg"
    and chat: "nonempty (m_remoteJid ctx)"
    and k: "k = userKey (the (m_remoteJid ctx)) (sender_of ctx)"
    and fresh: "w0 k = None"
    and others: "w1' k = snd (incrementWarningAndMaybeRemove cfg ctx ok1 w0) k"
                "w2' k = snd (incrementWarningAndMaybeRemove cfg ctx ok2 w1') k"
                "w3' k = snd (incrementWarningAndMaybeRemove cfg ctx True w2') k"
  shows "fst (incrementWarningAndMaybeRemove cfg ctx ok1 w0) = (1, False) \<and>
         fst (incrementWarningAndMaybeRemove cfg ctx ok2 w1') = (2, False) \<and>
         fst (incrementWarningAndMaybeRemove cfg ctx True w2') = (3, True) \<and>
         snd (incrementWarningAndMaybeRemove cfg ctx True w2') k = None \<and>
         fst (incrementWarningAndMaybeRemove cfg ctx ok4 w3') = (1, False)"
proof -
  note inc = increment_at_key[OF chat k refl]
  have 1: "incrementWarningAndMaybeRemove cfg ctx ok1 w0 = ((1, False), w0(k \<mapsto> 1))"
    using cfg fresh by (simp add: inc)
  then have w1: "w1' k = Some 1" using others(1) by simp
  have 2: "incrementWarningAndMaybeRemove cfg ctx ok2 w1' = ((2, False), w1'(k \<mapsto> 2))"
    using cfg w1 by (simp add: inc)
  then have w2: "w2' k = Some 2" using others(2) by simp
  have 3: "incrementWarningAndMaybeRemove cfg ctx True w2' = ((3, True), w2'(k := None))"
    using cfg w2 by (simp add: inc)
  then have w3: "w3' k = None" using others(3) by simp
  have 4: "incrementWarningAndMaybeRemove cfg ctx ok4 w3' = ((1, False), w3'(k \<mapsto> 1))"
    using cfg w3 by (simp add: inc)
  show ?thesis by (simp add: 1 2 3 4)
qed

theorem three_warnings_then_removed_witness:
  "let ctx = \<lparr>m_remoteJid = Some ''g@g.us'', m_id = Some ''M1'',
              m_participant = Some ''u@s.whatsapp.net'', m_fromMe = False,
              m_hasMessage = True, m_text = ''see http://example.org''\<rparr>;
       (r1, w1) = incrementWarningAndMaybeRemove default_config ctx True Map.empty;
       (r2, w2) = incrementWarningAndMaybeRemove default_config ctx True w1;
       (r3, w3) = incrementWarningAndMaybeRemove default_config ctx True w2;
       (r4, w4) = incrementWarningAndMaybeRemove default_config ctx True w3
   in r1 = (1, False) \<and> r2 = (2, False) \<and> r3 = (3, True) \<and> w3 = Map.empty \<and> r4 = (1, False)"
proof -
  let ?ctx = "\<lparr>m_remoteJid = Some ''g@g.us'', m_id = Some ''M1'',
              m_participant = Some ''u@s.whatsapp.net'', m_fromMe = False,
              m_hasMessage = True, m_text = ''see http://example.org''\<rparr>"
  let ?w1 = "snd (incrementWarningAndMaybeRemove default_config ?ctx True Map.empty)"
  let ?w2 = "snd (incrementWarningAndMaybeRemove default_config ?ctx True ?w1)"
  let ?w3 = "snd (incrementWarningAndMaybeRemove default_config ?ctx True ?w2)"
  have w3: "?w3 = Map.empty"
    by (simp add: incrementWarningAndMaybeRemove_def Let_def default_config_def sender_of_def
          str_or_def userKey_def)
  have "MAX_WARNS default_config = 3" "REMOVE_ON_MAX default_config"
    "nonempty (m_remoteJid ?ctx)" by (simp_all add: default_config_def)
  from three_warnings_then_removed[OF this refl, of Map.empty ?w1 True ?w2 True ?w3 True]
  show ?thesis by (simp add: Let_def split: prod.splits) (metis w3 fst_conv snd_conv)
qed

section \<open>The whitelist\<close>

lemma startsWith_iff: "startsWith s t = (\<exists>q. s = t @ q)"
  by (induction s t rule: startsWith.induct) auto

lemma str_includes_iff: "str_includes s t = (\<exists>p q. s = p @ t @ q)"
proof (induction s)
  case Nil
  then show ?case by auto
next
  case (Cons c cs)
  show ?case
  proof
    assume "str_includes (c # cs) t"
    then consider "startsWith (c # cs) t" | "str_includes cs t" by auto
    then show "\<exists>p q. c # cs = p @ t @ q"
    proof cases
      case 1
      then obtain q where "c # cs = t @ q" by (auto simp: startsWith_iff)
      then have "c # cs = [] @ t @ q" by simp
      then show ?thesis by blast
    next
      case 2
      then obtain p q where "cs = p @ t @ q" using Cons.IH by auto
      then have "c # cs = (c # p) @ t @ q" by simp
      then show ?thesis by blast
    qed
  next
    assume "\<exists>p q. c # cs = p @ t @ q"
    then obtain p q where e: "c # cs = p @ t @ q" by auto
    show "str_includes (c # cs) t"
    proof (cases p)
      case Nil
      then have "startsWith (c # cs) t" using e by (auto simp: startsWith_iff)
      then show ?thesis by simp
    next
      case (Cons d p')
      then have "cs = p' @ t @ q" using e by simp
      then have "str_includes cs t" using Cons.IH by auto
      then show ?thesis by simp
    qed
  qed
qed

lemma str_includes_prefix: "str_includes s (t @ u) \<Longrightarrow> str_includes s t"
  unfolding str_includes_iff by (metis append.assoc)

lemma isWhitelisted_iff:
  "isWhitelisted wl senderJid text =
     (\<exists>item\<in>set wl. (CHR ''@'' \<in> set item \<and> item = senderJid) \<or>
                      (CHR ''@'' \<notin> set item \<and> str_includes text item))"
  by (induction wl) auto

text \<open>
  C8 (amended). For a group message that is not a command, with enforcement enabled, from a
  sender who is neither the bot nor an admin: the message is exempt exactly when the
  whitelist has an entry with an \<^verbatim>\<open>@\<close> that is the sender's JID character for
  character, or an entry without \<^verbatim>\<open>@\<close> that occurs in the text; an exempt message
  leaves the state as it is, and another message goes on to the link check. With the
  whitelist \<^verbatim>\<open>["example.com"]\<close>, a message whose text contains
  \<^verbatim>\<open>example.com/page\<close> is not enqueued.
\<close>

theorem whitelist_exempts_exact_jid_or_domain:
  assumes "nonempty (m_remoteJid ctx)" and "m_hasMessage ctx" and "\<not> shuttingDown s"
    and "\<not> is_command a" and "endsWith (the (m_remoteJid ctx)) ''@g.us''"
    and "setting_enabled a" and "\<not> m_fromMe ctx" and "\<not> is_admin a"
  shows "onMessage cfg ctx a s =
           (if \<exists>item\<in>set (setting_whitelist a).
                 (CHR ''@'' \<in> set item \<and>
                    item = the (str_or (m_participant ctx) (m_remoteJid ctx))) \<or>
                 (CHR ''@'' \<notin> set item \<and> str_includes (m_text ctx) item)
            then s
            else if contains_link a then acceptViolation cfg ctx s else s) \<and>
         (str_includes (m_text ctx) ''example.com/page'' \<longrightarrow>
            onMessage cfg ctx (a\<lparr>setting_whitelist := [''example.com'']\<rparr>) s = s)"
proof -
  have 1: "onMessage cfg ctx a s =
           (if isWhitelisted (setting_whitelist a)
                 (the (str_or (m_participant ctx) (m_remoteJid ctx))) (m_text ctx)
            then s
            else if contains_link a then acceptViolation cfg ctx s else s)"
    if "\<not> is_command a" "setting_enabled a" "\<not> is_admin a" for a
    using assms(1,2,3,5,7) that by (simp add: onMessage_def Let_def)
  have 2: "str_includes (m_text ctx) ''example.com''"
    if "str_includes (m_text ctx) ''example.com/page''"
    using str_includes_prefix[of "m_text ctx" "''example.com''" "''/page''"] that by simp
  have 3: "onMessage cfg ctx (a\<lparr>setting_whitelist := [''example.com'']\<rparr>) s = s"
    if "str_includes (m_text ctx) ''example.com/page''"
    using 1[of "a\<lparr>setting_whitelist := [''example.com'']\<rparr>"] assms(4,6,8) 2[OF that]
    by simp
  show ?thesis using 1[OF assms(4,6,8)] 3 by (simp add: isWhitelisted_iff)
qed


theorem whitelist_exempts_exact_jid_or_domain_witness:
  "onMessage default_config
     \<lparr>m_remoteJid = Some ''g@g.us'', m_id = Some ''M1'',
       m_participant = Some ''u@s.whatsapp.net'', m_fromMe = False,
       m_hasMessage = True, m_text = ''see example.com/page''\<rparr>
     \<lparr>is_command = False, setting_enabled = True, setting_whitelist = [''example.com''],
       is_admin = False, contains_link = True\<rparr>
     initial_state = initial_state"
  using whitelist_exempts_exact_jid_or_domain[of
     "\<lparr>m_remoteJid = Some ''g@g.us'', m_id = Some ''M1'',
       m_participant = Some ''u@s.whatsapp.net'', m_fromMe = False,
       m_hasMessage = True, m_text = ''see example.com/page''\<rparr>"
     initial_state
     "\<lparr>is_command = False, setting_enabled = True, setting_whitelist = [''example.com''],
       is_admin = False, contains_link = True\<rparr>"
     default_config]
  by (simp add: initial_state_def endsWith_def)

text \<open>
  C8 as stated fails: a whitelist entry whose normalised form equals the sender's does not
  exempt a sender whose JID is written differently; the message is enqueued and its
  deletion begins.
\<close>

theorem whitelist_compares_raw_jid:
  "spec_whitelisted [''U@s.whatsapp.net''] ''u@s.whatsapp.net'' ''see x.org'' \<and>
   \<not> isWhitelisted [''U@s.whatsapp.net''] ''u@s.whatsapp.net'' ''see x.org'' \<and>
   history (onMessage default_config
     \<lparr>m_remoteJid = Some ''g@g.us'', m_id = Some ''M1'',
       m_participant = Some ''u@s.whatsapp.net'', m_fromMe = False,
       m_hasMessage = True, m_text = ''see x.org''\<rparr>
     \<lparr>is_command = False, setting_enabled = True, setting_whitelist = [''U@s.whatsapp.net''],
       is_admin = False, contains_link = True\<rparr>
     initial_state) =
   [Enqueued \<lparr>m_remoteJid = Some ''g@g.us'', m_id = Some ''M1'',
       m_participant = Some ''u@s.whatsapp.net'', m_fromMe = False,
       m_hasMessage = True, m_text = ''see x.org''\<rparr>,
    DeleteAttempt \<lparr>m_remoteJid = Some ''g@g.us'', m_id = Some ''M1'',
       m_participant = Some ''u@s.whatsapp.net'', m_fromMe = False,
       m_hasMessage = True, m_text = ''see x.org''\<rparr> 1]"
proof -
  have "normalizeJid (JStr ''u@s.whatsapp.net'') = JStr ''u@s.whatsapp.net''"
    by code_simp
  then have "spec_whitelisted [''U@s.whatsapp.net''] ''u@s.whatsapp.net'' ''see x.org''"
    unfolding spec_whitelisted_def by (simp add: normalize_example_u del: normalizeJid.simps)
  moreover have "\<not> isWhitelisted [''U@s.whatsapp.net''] ''u@s.whatsapp.net'' ''see x.org''"
    by simp
  moreover have "history (onMessage default_config
     \<lparr>m_remoteJid = Some ''g@g.us'', m_id = Some ''M1'',
       m_participant = Some ''u@s.whatsapp.net'', m_fromMe = False,
       m_hasMessage = True, m_text = ''see x.org''\<rparr>
     \<lparr>is_command = False, setting_enabled = True, setting_whitelist = [''U@s.whatsapp.net''],
       is_admin = False, contains_link = True\<rparr>
     initial_state) =
   [Enqueued \<lparr>m_remoteJid = Some ''g@g.us'', m_id = Some ''M1'',
       m_participant = Some ''u@s.whatsapp.net'', m_fromMe = False,
       m_hasMessage = True, m_text = ''see x.org''\<rparr>,
    DeleteAttempt \<lparr>m_remoteJid = Some ''g@g.us'', m_id = Some ''M1'',
       m_participant = Some ''u@s.whatsapp.net'', m_fromMe = False,
       m_hasMessage = True, m_text = ''see x.org''\<rparr> 1]"
    by (simp add: onMessage_def Let_def initial_state_def endsWith_def str_or_def
          acceptViolation_def getMessageKey_def enqueueDeletion_def queue_of_def
          tryStartProcessingForChat_def processChatQueue_def default_config_def num_or_def)
  ultimately show ?thesis by blast
qed

section \<open>The deletion queue keeps the order of arrival\<close>

lemma enqueued_for_append:
  "enqueued_for c (h @ h') = enqueued_for c h @ enqueued_for c h'"
  by (induction c h rule: enqueued_for.induct) auto

lemma attempts_for_append:
  "attempts_for c (h @ h') = attempts_for c h @ attempts_for c h'"
  by (induction c h rule: attempts_for.induct) auto

lemma begun_for_append: "begun_for c (h @ h') = begun_for c h @ begun_for c h'"
  by (simp add: begun_for_def attempts_for_append)

lemma begun_for_single:
  "begun_for c [a] =
     (case a of DeleteAttempt m i \<Rightarrow> if m_remoteJid m = Some c \<and> i = 1 then [m] else []
      | _ \<Rightarrow> [])"
  by (cases a) (auto simp: begun_for_def)

lemma repeats_snoc:
  "length ms = length ks \<Longrightarrow>
   repeats (ms @ [m]) (ks @ [k]) = repeats ms ks @ map (\<lambda>i. (m, i)) [1..<Suc k]"
  by (induction ms ks rule: list_induct2) auto

lemma retry_ok_begin:
  assumes "retry_ok c h cur" and "m_remoteJid m = Some c"
  shows "retry_ok c (h @ [DeleteAttempt m 1]) (Some (m, 1))"
proof -
  from assms(1) obtain ks where ks: "length ks = length (begun_for c h)"
    "\<forall>k\<in>set ks. 1 \<le> k" "attempts_for c h = repeats (begun_for c h) ks"
    unfolding retry_ok_def by blast
  have b: "begun_for c (h @ [DeleteAttempt m 1]) = begun_for c h @ [m]"
    using assms(2) by (simp add: begun_for_append begun_for_single)
  have a: "attempts_for c (h @ [DeleteAttempt m 1]) = attempts_for c h @ [(m, 1)]"
    using assms(2) by (simp add: attempts_for_append)
  have "repeats (begun_for c h @ [m]) (ks @ [1]) = repeats (begun_for c h) ks @ [(m, 1)]"
    using ks(1) by (simp add: repeats_snoc)
  then show ?thesis
    unfolding retry_ok_def b a using ks
    by (intro exI[of _ "ks @ [1]"]) auto
qed

lemma retry_ok_again:
  assumes "retry_ok c h (Some (m, i))"
  shows "retry_ok c (h @ [DeleteAttempt m (Suc i)]) (Some (m, Suc i))"
proof -
  from assms obtain ks where ks: "length ks = length (begun_for c h)"
    "\<forall>k\<in>set ks. 1 \<le> k" "attempts_for c h = repeats (begun_for c h) ks"
    "begun_for c h \<noteq> []" "last (begun_for c h) = m" "last ks = i"
    unfolding retry_ok_def by blast
  from ks(1,4) have kne: "ks \<noteq> []" by auto
  define ms0 ks0 where "ms0 = butlast (begun_for c h)" and "ks0 = butlast ks"
  have ms: "begun_for c h = ms0 @ [m]"
    using append_butlast_last_id[OF ks(4)] ks(5) by (simp add: ms0_def)
  have kse: "ks = ks0 @ [i]"
    using append_butlast_last_id[OF kne] ks(6) by (simp add: ks0_def)
  have len: "length ms0 = length ks0" using ks(1) by (simp add: ms0_def ks0_def)
  have i1: "1 \<le> i" using ks(2) kse by simp
  have mc: "m_remoteJid m = Some c"
  proof -
    have "m \<in> set (begun_for c h)" using ms by simp
    then obtain j where "(m, j) \<in> set (attempts_for c h)" by (auto simp: begun_for_def)
    moreover have "(x, j) \<in> set (attempts_for c g) \<Longrightarrow> m_remoteJid x = Some c" for x j g
      by (induction c g rule: attempts_for.induct) (auto split: if_splits)
    ultimately show ?thesis by blast
  qed
  have b: "begun_for c (h @ [DeleteAttempt m (Suc i)]) = begun_for c h"
    using i1 by (simp add: begun_for_append begun_for_single)
  have a: "attempts_for c (h @ [DeleteAttempt m (Suc i)]) = attempts_for c h @ [(m, Suc i)]"
    using mc by (simp add: attempts_for_append)
  have "repeats (ms0 @ [m]) (ks0 @ [Suc i]) = repeats (ms0 @ [m]) (ks0 @ [i]) @ [(m, Suc i)]"
    using len i1 by (simp add: repeats_snoc)
  then have r: "repeats (begun_for c h) (ks0 @ [Suc i]) = attempts_for c h @ [(m, Suc i)]"
    using ks(3) by (simp add: ms kse)
  show ?thesis
    unfolding retry_ok_def b a using ks r len kse ms
    by (intro exI[of _ "ks0 @ [Suc i]"]) auto
qed

lemma retry_ok_other:
  assumes "retry_ok c h cur" and "attempts_for c [a] = []"
  shows "retry_ok c (h @ [a]) cur"
  using assms by (simp add: retry_ok_def begun_for_def attempts_for_append)

lemma retry_ok_drop: "retry_ok c h cur \<Longrightarrow> retry_ok c h None"
  unfolding retry_ok_def by auto

lemma queue_of_frame [simp]:
  "queue_of (s\<lparr>tasks := t\<rparr>) = queue_of s"
  "queue_of (s\<lparr>history := h\<rparr>) = queue_of s"
  "queue_of (s\<lparr>perChatProcessing := p\<rparr>) = queue_of s"
  "queue_of (s\<lparr>activeChats := n\<rparr>) = queue_of s"
  "queue_of (s\<lparr>startTimers := ts\<rparr>) = queue_of s"
  "queue_of (s\<lparr>processedMessageIds := ids\<rparr>) = queue_of s"
  "queue_of (s\<lparr>perUserWarnings := w\<rparr>) = queue_of s"
  "queue_of (s\<lparr>clock := n'\<rparr>) = queue_of s"
  "queue_of (s\<lparr>pendingMessages := ms\<rparr>) = queue_of s"
  by (simp_all add: queue_of_def fun_eq_iff)

lemma queue_of_update [simp]:
  "queue_of (s\<lparr>perChatQueue := (perChatQueue s)(c \<mapsto> q)\<rparr>) c' =
     (if c' = c then q else queue_of s c')"
  by (simp add: queue_of_def)

lemma chat_ok_other_action:
  assumes "chat_ok c h batch cur running q p"
    and "enqueued_for c [a] = []" and "attempts_for c [a] = []"
  shows "chat_ok c (h @ [a]) batch cur running q p"
  using assms
  by (simp add: chat_ok_def enqueued_for_append begun_for_def attempts_for_append retry_ok_other)

lemma run_batch_inv:
  assumes "\<And>c. c \<noteq> c0 \<Longrightarrow> chat_inv c s"
    and "chat_ok c0 (history s) batch None True (queue_of s c0) (perChatProcessing s c0)"
  shows "fifo_inv (run_batch cfg c0 batch s)"
  using assms
proof (induction batch arbitrary: s)
  case Nil
  have "chat_inv c (run_batch cfg c0 [] s)" for c
  proof (cases "c = c0")
    case True
    then show ?thesis using Nil(2) by (cases "queue_of s c0 = []") (simp_all add: chat_inv_def)
  next
    case False
    then show ?thesis using Nil(1)[OF False] by (simp add: chat_inv_def)
  qed
  then show ?case by (simp add: fifo_inv_def)
next
  case (Cons m rest)
  from Cons.prems(2) have mc: "m_remoteJid m = Some c0" and ne: "c0 \<noteq> []"
    by (simp_all add: chat_ok_def)
  let ?s' = "s\<lparr>history := history s @ [DeleteAttempt m 1],
               tasks := (tasks s)(c0 \<mapsto> Deleting m 1 rest)\<rparr>"
  have rb: "run_batch cfg c0 (m # rest) s = ?s'" using mc ne by simp
  have "chat_inv c ?s'" for c
  proof (cases "c = c0")
    case True
    have b: "begun_for c0 (history s @ [DeleteAttempt m 1]) = begun_for c0 (history s) @ [m]"
      using mc by (simp add: begun_for_append begun_for_single)
    have e: "enqueued_for c0 (history s @ [DeleteAttempt m 1]) = enqueued_for c0 (history s)"
      by (simp add: enqueued_for_append)
    have ro: "retry_ok c0 (history s) None" using Cons.prems(2) by (simp add: chat_ok_def)
    have r: "retry_ok c0 (history s @ [DeleteAttempt m 1]) (Some (m, 1))"
      using ro mc by (rule retry_ok_begin)
    show ?thesis
      using Cons.prems(2) True r by (simp add: chat_inv_def chat_ok_def b e del: One_nat_def)
  next
    case False
    have "chat_ok c (history s @ [DeleteAttempt m 1]) (in_batch (tasks s c))
            (current_attempt (tasks s c)) (tasks s c \<noteq> None) (queue_of s c)
            (perChatProcessing s c)"
      using Cons.prems(1)[OF False] False mc
      by (intro chat_ok_other_action) (auto simp: chat_inv_def)
    then show ?thesis using False by (simp add: chat_inv_def del: One_nat_def)
  qed
  then show ?case unfolding rb by (simp add: fifo_inv_def)
qed


lemma chat_inv_frame [simp]:
  "chat_inv c (s\<lparr>activeChats := n\<rparr>) = chat_inv c s"
  "chat_inv c (s\<lparr>startTimers := ts\<rparr>) = chat_inv c s"
  "chat_inv c (s\<lparr>processedMessageIds := ids\<rparr>) = chat_inv c s"
  "chat_inv c (s\<lparr>perUserWarnings := w\<rparr>) = chat_inv c s"
  "chat_inv c (s\<lparr>clock := n'\<rparr>) = chat_inv c s"
  "chat_inv c (s\<lparr>pendingMessages := ms\<rparr>) = chat_inv c s"
  by (simp_all add: chat_inv_def)

lemma fifo_inv_frame [simp]:
  "fifo_inv (s\<lparr>activeChats := n\<rparr>) = fifo_inv s"
  "fifo_inv (s\<lparr>startTimers := ts\<rparr>) = fifo_inv s"
  "fifo_inv (s\<lparr>processedMessageIds := ids\<rparr>) = fifo_inv s"
  "fifo_inv (s\<lparr>perUserWarnings := w\<rparr>) = fifo_inv s"
  "fifo_inv (s\<lparr>clock := n'\<rparr>) = fifo_inv s"
  "fifo_inv (s\<lparr>pendingMessages := ms\<rparr>) = fifo_inv s"
  by (simp_all add: fifo_inv_def)

lemma processChatQueue_inv:
  assumes others: "\<And>c. c \<noteq> c0 \<Longrightarrow> chat_inv c s"
    and here: "chat_ok c0 (history s) [] None True (queue_of s c0) (perChatProcessing s c0)"
  shows "fifo_inv (processChatQueue cfg c0 s)"
proof (cases "queue_of s c0 \<noteq> [] \<and> \<not> shuttingDown s")
  case True
  define n where "n = nat (num_or (BATCH_SIZE cfg) 1)"
  let ?s1 = "s\<lparr>perChatQueue := (perChatQueue s)(c0 \<mapsto> drop n (queue_of s c0))\<rparr>"
  have p: "processChatQueue cfg c0 s = run_batch cfg c0 (take n (queue_of s c0)) ?s1"
    using True by (simp add: processChatQueue_def Let_def n_def)
  have o: "chat_inv c ?s1" if "c \<noteq> c0" for c
    using others[OF that] that by (simp add: chat_inv_def)
  have "set (take n (queue_of s c0)) \<union> set (drop n (queue_of s c0)) = set (queue_of s c0)"
    by (metis append_take_drop_id set_append)
  then have t: "chat_ok c0 (history ?s1) (take n (queue_of s c0)) None True (queue_of ?s1 c0)
             (perChatProcessing ?s1 c0)"
    using here by (simp add: chat_ok_def)
  show ?thesis unfolding p using o t by (rule run_batch_inv)
next
  case False
  then have p: "processChatQueue cfg c0 s = s\<lparr>tasks := (tasks s)(c0 \<mapsto> Returned)\<rparr>"
    by (auto simp: processChatQueue_def)
  have "chat_inv c (s\<lparr>tasks := (tasks s)(c0 \<mapsto> Returned)\<rparr>)" for c
    using others[of c] here by (cases "c = c0") (simp_all add: chat_inv_def)
  then show ?thesis unfolding p by (simp add: fifo_inv_def)
qed

lemma tryStartProcessingForChat_inv:
  assumes "fifo_inv s"
  shows "fifo_inv (tryStartProcessingForChat cfg c0 s)"
proof -
  consider (skip) "perChatProcessing s c0 = Some True \<or> shuttingDown s"
    | (later) "\<not> (perChatProcessing s c0 = Some True \<or> shuttingDown s)"
        "activeChats s \<ge> num_or (GLOBAL_CONCURRENCY cfg) 1"
    | (start) "\<not> (perChatProcessing s c0 = Some True \<or> shuttingDown s)"
        "\<not> activeChats s \<ge> num_or (GLOBAL_CONCURRENCY cfg) 1"
    by blast
  then show ?thesis
  proof cases
    case skip
    then show ?thesis using assms by (auto simp: tryStartProcessingForChat_def)
  next
    case later
    then show ?thesis using assms by (simp add: tryStartProcessingForChat_def)
  next
    case start
    let ?s1 = "s\<lparr>activeChats := activeChats s + 1,
                   perChatProcessing := (perChatProcessing s)(c0 \<mapsto> True)\<rparr>"
    have t: "tryStartProcessingForChat cfg c0 s = processChatQueue cfg c0 ?s1"
      using start by (simp add: tryStartProcessingForChat_def)
    have c0: "chat_inv c0 s" using assms by (simp add: fifo_inv_def)
    then have none: "tasks s c0 = None" using start(1) by (auto simp: chat_inv_def chat_ok_def)
    have o: "chat_inv c ?s1" if "c \<noteq> c0" for c
      using assms that by (simp add: fifo_inv_def chat_inv_def)
    have th: "chat_ok c0 (history ?s1) [] None True (queue_of ?s1 c0) (perChatProcessing ?s1 c0)"
      using c0 none by (simp add: chat_inv_def chat_ok_def)
    show ?thesis unfolding t using o th by (rule processChatQueue_inv)
  qed
qed

lemma enqueueDeletion_inv:
  assumes "fifo_inv s"
  shows "fifo_inv (enqueueDeletion cfg m s)"
proof (cases "nonempty (m_remoteJid m)")
  case False
  then show ?thesis using assms by (simp add: enqueueDeletion_def)
next
  case True
  then obtain c0 where mc: "m_remoteJid m = Some c0" and ne: "c0 \<noteq> []"
    by (cases "m_remoteJid m") auto
  let ?s1 = "s\<lparr>perChatQueue := (perChatQueue s)(c0 \<mapsto> queue_of s c0 @ [m]),
                 history := history s @ [Enqueued m]\<rparr>"
  have "chat_inv c ?s1" for c
  proof (cases "c = c0")
    case True
    have "chat_inv c0 s" using assms by (simp add: fifo_inv_def)
    then show ?thesis
      using True mc ne
      by (simp add: chat_inv_def chat_ok_def enqueued_for_append begun_for_append
            begun_for_single retry_ok_other)
  next
    case False
    have "chat_inv c s" using assms by (simp add: fifo_inv_def)
    then have "chat_ok c (history s @ [Enqueued m]) (in_batch (tasks s c))
            (current_attempt (tasks s c)) (tasks s c \<noteq> None) (queue_of s c)
            (perChatProcessing s c)"
      using False mc by (intro chat_ok_other_action) (auto simp: chat_inv_def)
    then show ?thesis using False by (simp add: chat_inv_def)
  qed
  then have 1: "fifo_inv ?s1" by (simp add: fifo_inv_def)
  then have 2: "fifo_inv (tryStartProcessingForChat cfg c0 ?s1)"
    by (rule tryStartProcessingForChat_inv)
  show ?thesis using True mc 1 2 by (simp add: enqueueDeletion_def Let_def)
qed

lemma acceptViolation_inv: "fifo_inv s \<Longrightarrow> fifo_inv (acceptViolation cfg m s)"
  by (simp add: acceptViolation_def Let_def enqueueDeletion_inv)

lemma onMessage_inv: "fifo_inv s \<Longrightarrow> fifo_inv (onMessage cfg m a s)"
  by (simp add: onMessage_def Let_def acceptViolation_inv)

lemma task_step_inv:
  assumes inv: "fifo_inv s" and t: "tasks s c0 = Some t0"
    and new: "in_batch (Some t1) = in_batch (Some t0)"
      "current_attempt (Some t1) = None \<or> current_attempt (Some t1) = current_attempt (Some t0)"
  shows "fifo_inv (s\<lparr>tasks := (tasks s)(c0 \<mapsto> t1)\<rparr>)"
proof -
  have "chat_inv c (s\<lparr>tasks := (tasks s)(c0 \<mapsto> t1)\<rparr>)" for c
  proof (cases "c = c0")
    case True
    have "chat_inv c0 s" using inv by (simp add: fifo_inv_def)
    then show ?thesis
      using True t new by (auto simp: chat_inv_def chat_ok_def dest: retry_ok_drop)
  next
    case False
    then show ?thesis using inv by (simp add: fifo_inv_def chat_inv_def)
  qed
  then show ?thesis by (simp add: fifo_inv_def)
qed

lemma continue_batch_inv:
  assumes inv: "fifo_inv s" and t: "tasks s c0 = Some t0"
  shows "fifo_inv (run_batch cfg c0 (in_batch (Some t0)) s)"
proof -
  have c0: "chat_inv c0 s" using inv by (simp add: fifo_inv_def)
  have "chat_ok c0 (history s) (in_batch (Some t0)) None True (queue_of s c0)
          (perChatProcessing s c0)"
    using c0 t by (auto simp: chat_inv_def chat_ok_def dest: retry_ok_drop)
  moreover have "chat_inv c s" if "c \<noteq> c0" for c using inv by (simp add: fifo_inv_def)
  ultimately show ?thesis by (intro run_batch_inv)
qed

lemma history_only_inv:
  assumes inv: "fifo_inv s"
    and "\<And>c. enqueued_for c [a] = []" and "\<And>c. attempts_for c [a] = []"
  shows "fifo_inv (s\<lparr>history := history s @ [a]\<rparr>)"
proof -
  have "chat_inv c (s\<lparr>history := history s @ [a]\<rparr>)" for c
    using inv assms(2,3) chat_ok_other_action[of c "history s" _ _ _ _ _ a]
    by (simp add: fifo_inv_def chat_inv_def)
  then show ?thesis by (simp add: fifo_inv_def)
qed

lemma finish_processing_inv:
  assumes inv: "fifo_inv s" and t: "tasks s c0 = Some Returned"
  shows "fifo_inv (finish_processing c0 s)"
proof -
  have "chat_inv c (finish_processing c0 s)" for c
  proof (cases "c = c0")
    case True
    have "chat_inv c0 s" using inv by (simp add: fifo_inv_def)
    then show ?thesis
      using True t by (simp add: chat_inv_def chat_ok_def finish_processing_def)
  next
    case False
    then show ?thesis using inv by (simp add: fifo_inv_def chat_inv_def finish_processing_def)
  qed
  then show ?thesis by (simp add: fifo_inv_def)
qed

lemma retry_attempt_inv:
  assumes inv: "fifo_inv s" and t: "tasks s c0 = Some (Backoff m i rest wake)"
  shows "fifo_inv (s\<lparr>history := history s @ [DeleteAttempt m (i + 1)],
                     tasks := (tasks s)(c0 \<mapsto> Deleting m (i + 1) rest)\<rparr>)"
proof -
  let ?s' = "s\<lparr>history := history s @ [DeleteAttempt m (i + 1)],
               tasks := (tasks s)(c0 \<mapsto> Deleting m (i + 1) rest)\<rparr>"
  have c0: "chat_inv c0 s" using inv by (simp add: fifo_inv_def)
  then have r: "retry_ok c0 (history s) (Some (m, i))"
    using t by (simp add: chat_inv_def chat_ok_def)
  then obtain ks where ks: "length ks = length (begun_for c0 (history s))"
      "\<forall>k\<in>set ks. 1 \<le> k" "begun_for c0 (history s) \<noteq> []"
      "last (begun_for c0 (history s)) = m" "last ks = i"
    unfolding retry_ok_def by blast
  then have "ks \<noteq> []" by auto
  then have i1: "1 \<le> i" using ks(2,5) last_in_set by blast
  have "m \<in> set (begun_for c0 (history s))" using ks(3,4) last_in_set by blast
  then obtain j where "(m, j) \<in> set (attempts_for c0 (history s))" by (auto simp: begun_for_def)
  moreover have "(x, j) \<in> set (attempts_for c g) \<Longrightarrow> m_remoteJid x = Some c" for x j g c
    by (induction c g rule: attempts_for.induct) (auto split: if_splits)
  ultimately have mc: "m_remoteJid m = Some c0" by blast
  have r': "retry_ok c0 (history s @ [DeleteAttempt m (Suc i)]) (Some (m, Suc i))"
    using r by (rule retry_ok_again)
  have "chat_inv c ?s'" for c
  proof (cases "c = c0")
    case True
    show ?thesis
      using c0 True t r' i1
      by (simp add: chat_inv_def chat_ok_def enqueued_for_append begun_for_append
            begun_for_single)
  next
    case False
    have "chat_inv c s" using inv by (simp add: fifo_inv_def)
    then have "chat_ok c (history s @ [DeleteAttempt m (i + 1)]) (in_batch (tasks s c))
            (current_attempt (tasks s c)) (tasks s c \<noteq> None) (queue_of s c)
            (perChatProcessing s c)"
      using False mc by (intro chat_ok_other_action) (auto simp: chat_inv_def)
    then show ?thesis using False by (simp add: chat_inv_def)
  qed
  then show ?thesis by (simp add: fifo_inv_def)
qed


lemma pause_ends_inv:
  assumes inv: "fifo_inv s" and t: "tasks s c0 = Some (Pausing wake)"
  shows "fifo_inv (processChatQueue cfg c0 s)"
proof -
  have c0: "chat_inv c0 s" using inv by (simp add: fifo_inv_def)
  have "chat_ok c0 (history s) [] None True (queue_of s c0) (perChatProcessing s c0)"
    using c0 t by (simp add: chat_inv_def chat_ok_def)
  moreover have "chat_inv c s" if "c \<noteq> c0" for c using inv by (simp add: fifo_inv_def)
  ultimately show ?thesis by (intro processChatQueue_inv)
qed

lemma forward_settles_inv:
  assumes inv: "fifo_inv s" and t: "tasks s c0 = Some (Forwarding ctx rest)"
    and f: "fire cfg (ForwardSettles c0 remove_ok) s = Some s'"
  shows "fifo_inv s'"
proof -
  define s1 where "s1 = (if LOG_DELETED_LINKS cfg then s\<lparr>history := history s @ [Forwarded ctx]\<rparr> else s)"
  obtain count removed warnings where
    i: "incrementWarningAndMaybeRemove cfg ctx remove_ok (perUserWarnings s1) =
          ((count, removed), warnings)"
    by (metis surj_pair)
  define s2 where "s2 = s1\<lparr>perUserWarnings := warnings,
                       history := history s1 @ [Counted ctx count removed]\<rparr>"
  define s3 where "s3 = (if SEND_WARNING cfg
                          then s2\<lparr>history := history s2 @ [WarningSent ctx count]\<rparr> else s2)"
  have 1: "fifo_inv s1" and t1: "tasks s1 c0 = Some (Forwarding ctx rest)"
    using inv t by (simp_all add: s1_def history_only_inv)
  have w: "fifo_inv (s1\<lparr>perUserWarnings := warnings\<rparr>)" using 1 by simp
  have 2: "fifo_inv s2" and t2: "tasks s2 c0 = Some (Forwarding ctx rest)"
    using history_only_inv[OF w, of "Counted ctx count removed"] t1 by (simp_all add: s2_def)
  have 3: "fifo_inv s3" and t3: "tasks s3 c0 = Some (Forwarding ctx rest)"
    using 2 t2 by (simp_all add: s3_def history_only_inv)
  have s': "s' = (if removed then run_batch cfg c0 rest s2
                  else s3\<lparr>tasks := (tasks s2)(c0 \<mapsto> Warning ctx rest)\<rparr>)"
    using f t i unfolding s3_def s2_def s1_def by (auto simp: Let_def split: if_splits)
  have ts: "tasks s3 = tasks s2" by (simp add: s3_def)
  show ?thesis
  proof (cases removed)
    case True
    then show ?thesis using s' continue_batch_inv[OF 2 t2, of cfg] by simp
  next
    case False
    then show ?thesis using s' task_step_inv[OF 3 t3, of "Warning ctx rest"] by (simp add: ts)
  qed
qed

lemma fire_inv:
  assumes inv: "fifo_inv s" and f: "fire cfg e s = Some s'"
  shows "fifo_inv s'"
proof (cases e)
  case (Tick n)
  then show ?thesis using inv f by auto
next
  case (Arrives ctx)
  then show ?thesis
    using f history_only_inv[of "s\<lparr>pendingMessages := pendingMessages s @ [ctx]\<rparr>"
        "Arrived ctx (clock s)"] inv
    by auto
next
  case (Incoming ctx a)
  then show ?thesis using inv f by (auto simp: onMessage_inv split: if_splits)
next
  case (StartTimerFires i)
  then show ?thesis
    using inv f by (auto simp: tryStartProcessingForChat_inv split: if_splits)
next
  case (KeyTimerFires k)
  then show ?thesis using inv f by (auto split: option.splits if_splits)
next
  case (DeleteSettles c ok)
  then obtain ctx i rest where t: "tasks s c = Some (Deleting ctx i rest)"
    using f by (auto split: option.splits task.splits)
  show ?thesis
    using f DeleteSettles t task_step_inv[OF inv t, of "Forwarding ctx rest"]
      task_step_inv[OF inv t, of "Backoff ctx i rest (clock s + 400 * i)"]
      continue_batch_inv[OF inv t, of cfg]
    by (auto split: if_splits)
next
  case (SleepEnds c)
  then consider (backoff) ctx i rest wake where "tasks s c = Some (Backoff ctx i rest wake)"
    | (pause) wake where "tasks s c = Some (Pausing wake)"
    using f by (auto split: option.splits task.splits)
  then show ?thesis
  proof cases
    case backoff
    then show ?thesis
      using f SleepEnds retry_attempt_inv[OF inv backoff] by (auto split: if_splits)
  next
    case pause
    then show ?thesis
      using f SleepEnds pause_ends_inv[OF inv pause, of cfg] by (auto split: if_splits)
  qed
next
  case (ForwardSettles c remove_ok)
  then obtain ctx rest where t: "tasks s c = Some (Forwarding ctx rest)"
    using f by (auto split: option.splits task.splits)
  show ?thesis using forward_settles_inv[OF inv t] f ForwardSettles by blast
next
  case (WarningSettles c)
  then obtain ctx rest where t: "tasks s c = Some (Warning ctx rest)"
    using f by (auto split: option.splits task.splits)
  show ?thesis using f WarningSettles t continue_batch_inv[OF inv t, of cfg] by auto
next
  case (ProcessingEnds c)
  then have t: "tasks s c = Some Returned"
    using f by (auto split: option.splits task.splits)
  show ?thesis using f ProcessingEnds t finish_processing_inv[OF inv t] by auto
qed

lemma run_inv: "fifo_inv s \<Longrightarrow> run cfg es s = Some s' \<Longrightarrow> fifo_inv s'"
  by (induction es arbitrary: s) (auto split: option.splits dest: fire_inv)

lemma initial_inv: "fifo_inv initial_state"
  by (simp add: fifo_inv_def chat_inv_def chat_ok_def initial_state_def queue_of_def
        begun_for_def retry_ok_def)



section \<open>Duplicates within five seconds\<close>












lemma same_keys_frame [simp]:
  "same_keys s (s\<lparr>tasks := t\<rparr>)"
  "same_keys s (s\<lparr>startTimers := ts\<rparr>)"
  "same_keys s (s\<lparr>perUserWarnings := w\<rparr>)"
  "same_keys s (s\<lparr>pendingMessages := ms\<rparr>)"
  by (simp_all add: same_keys_def)













section \<open>A negative batch size\<close>

text \<open>
  With a negative \<^verbatim>\<open>BATCH_SIZE\<close>, \<^verbatim>\<open>splice(0, n)\<close> takes nothing from the queue: every
  batch is empty and \<^verbatim>\<open>processChatQueue\<close> sleeps between empty batches for as long as
  the queue is not empty. No deletion is ever attempted; what was enqueued stays in the
  queue.
\<close>

lemma nothing_begun_frame [simp]:
  "nothing_begun (s\<lparr>activeChats := n\<rparr>) = nothing_begun s"
  "nothing_begun (s\<lparr>startTimers := ts\<rparr>) = nothing_begun s"
  "nothing_begun (s\<lparr>processedMessageIds := ids\<rparr>) = nothing_begun s"
  "nothing_begun (s\<lparr>perUserWarnings := w\<rparr>) = nothing_begun s"
  "nothing_begun (s\<lparr>clock := n'\<rparr>) = nothing_begun s"
  "nothing_begun (s\<lparr>pendingMessages := ms\<rparr>) = nothing_begun s"
  "nothing_begun (s\<lparr>perChatQueue := q\<rparr>) = nothing_begun s"
  "nothing_begun (s\<lparr>perChatProcessing := p\<rparr>) = nothing_begun s"
  by (simp_all add: nothing_begun_def)

lemma processChatQueue_nothing_begun:
  assumes "num_or (BATCH_SIZE cfg) 1 < 0" and "nothing_begun s"
  shows "nothing_begun (processChatQueue cfg c s)"
  using assms by (auto simp: processChatQueue_def Let_def nothing_begun_def)

lemma tryStart_nothing_begun:
  assumes "num_or (BATCH_SIZE cfg) 1 < 0" and "nothing_begun s"
  shows "nothing_begun (tryStartProcessingForChat cfg c s)"
  using assms processChatQueue_nothing_begun[OF assms(1),
      of "s\<lparr>activeChats := activeChats s + 1,
             perChatProcessing := (perChatProcessing s)(c \<mapsto> True)\<rparr>" c]
  by (simp add: tryStartProcessingForChat_def)

lemma enqueueDeletion_nothing_begun:
  assumes "num_or (BATCH_SIZE cfg) 1 < 0" and "nothing_begun s"
  shows "nothing_begun (enqueueDeletion cfg m s)"
proof -
  have "nothing_begun (s\<lparr>perChatQueue := q, history := history s @ [Enqueued m]\<rparr>)" for q
    using assms(2) by (simp add: nothing_begun_def attempts_for_append)
  then show ?thesis
    using assms tryStart_nothing_begun[OF assms(1)]
    by (simp add: enqueueDeletion_def Let_def)
qed

lemma onMessage_nothing_begun:
  assumes "num_or (BATCH_SIZE cfg) 1 < 0" and "nothing_begun s"
  shows "nothing_begun (onMessage cfg m a s)"
  using assms enqueueDeletion_nothing_begun[OF assms(1)]
  by (simp add: onMessage_def acceptViolation_def Let_def)

lemma fire_nothing_begun:
  assumes neg: "num_or (BATCH_SIZE cfg) 1 < 0" and inv: "nothing_begun s"
    and f: "fire cfg e s = Some s'"
  shows "nothing_begun s'"
proof (cases e)
  case (Tick n)
  then show ?thesis using inv f by auto
next
  case (Arrives ctx)
  then show ?thesis using inv f by (auto simp: nothing_begun_def attempts_for_append)
next
  case (Incoming ctx a)
  then show ?thesis
    using inv f onMessage_nothing_begun[OF neg] by (auto split: if_splits)
next
  case (StartTimerFires i)
  then show ?thesis
    using inv f tryStart_nothing_begun[OF neg] by (auto split: if_splits)
next
  case (KeyTimerFires k)
  then show ?thesis using inv f by (auto split: option.splits if_splits)
next
  case (DeleteSettles c ok)
  then have "idle_task (tasks s c)" using inv by (simp add: nothing_begun_def)
  then show ?thesis
    using f DeleteSettles by (auto split: option.splits task.splits)
next
  case (SleepEnds c)
  then have "idle_task (tasks s c)" using inv by (simp add: nothing_begun_def)
  then show ?thesis
    using f SleepEnds inv processChatQueue_nothing_begun[OF neg, of s c]
    by (auto split: option.splits task.splits if_splits)
next
  case (ForwardSettles c remove_ok)
  then have "idle_task (tasks s c)" using inv by (simp add: nothing_begun_def)
  then show ?thesis
    using f ForwardSettles by (auto split: option.splits task.splits)
next
  case (WarningSettles c)
  then have "idle_task (tasks s c)" using inv by (simp add: nothing_begun_def)
  then show ?thesis
    using f WarningSettles by (auto split: option.splits task.splits)
next
  case (ProcessingEnds c)
  then show ?thesis
    using f inv by (auto simp: finish_processing_def nothing_begun_def
        split: option.splits task.splits)
qed

lemma run_nothing_begun:
  "num_or (BATCH_SIZE cfg) 1 < 0 \<Longrightarrow> nothing_begun s \<Longrightarrow> run cfg es s = Some s' \<Longrightarrow>
   nothing_begun s'"
  by (induction es arbitrary: s) (auto split: option.splits dest: fire_nothing_begun)

lemma negative_batch_size_deletes_nothing:
  assumes "num_or (BATCH_SIZE cfg) 1 < 0" and "run cfg inputs initial_state = Some s"
  shows "attempts_for c (history s) = [] \<and> begun_for c (history s) = [] \<and>
         in_batch (tasks s c) @ queue_of s c = enqueued_for c (history s)"
proof -
  have "nothing_begun initial_state" by (simp add: nothing_begun_def initial_state_def)
  then have n: "nothing_begun s" using assms run_nothing_begun by blast
  then have a: "attempts_for c (history s) = []" by (simp add: nothing_begun_def)
  then have b: "begun_for c (history s) = []" by (simp add: begun_for_def)
  have "fifo_inv s" using initial_inv assms(2) by (rule run_inv)
  then have "begun_for c (history s) @ in_batch (tasks s c) @ queue_of s c =
           enqueued_for c (history s)"
    by (simp add: fifo_inv_def chat_inv_def chat_ok_def)
  then show ?thesis using a b by simp
qed

end
